theory Spec2Isabelle
  imports Complex_Main "HOL-Library.Multiset" "HOL-Library.Word"
begin

section \<open>Shared machinery: errors, the random source, coordinates\<close>

text \<open>
  The notebook \<^verbatim>\<open>chap09\<close> holds two grid models, \<^verbatim>\<open>Schelling\<close> and
  \<^verbatim>\<open>Sugarscape\<close>. Both read NumPy's global random state. Here the random state is
  an explicit value: two infinite sequences of raw draws (integers and reals) and a cursor.
  Every function that draws takes the source and returns the advanced one.
  Floating-point numbers are idealised as reals. NumPy's \<^verbatim>\<open>int64\<close> is a 64-bit word:
  addition wraps around, and order and conversions read the word as a signed number.
\<close>

type_synonym int64 = "64 word"

datatype error = ValueError | AssertionError | KeyError | IndexError

type_synonym loc = "nat \<times> nat"

record rng =
  ints :: "nat \<Rightarrow> nat"
  reals :: "nat \<Rightarrow> real"
  pos :: nat

definition next_int :: "rng \<Rightarrow> nat \<times> rng" where
  "next_int r = (ints r (pos r), r\<lparr>pos := Suc (pos r)\<rparr>)"

definition next_real :: "rng \<Rightarrow> real \<times> rng" where
  "next_real r = (reals r (pos r), r\<lparr>pos := Suc (pos r)\<rparr>)"

text \<open>\<^verbatim>\<open>np.random.randint(high)\<close>: a value in \<open>[0, high)\<close>; NumPy raises
  \<^verbatim>\<open>ValueError\<close> when the range is empty.\<close>

definition randint_below :: "nat \<Rightarrow> rng \<Rightarrow> error + (nat \<times> rng)" where
  "randint_below high r =
     (if high = 0 then Inl ValueError
      else (case next_int r of (x, r') \<Rightarrow> Inr (x mod high, r')))"

text \<open>\<^verbatim>\<open>np.random.randint(low, high)\<close>: a value in \<open>[low, high)\<close>.\<close>

definition randint :: "int \<Rightarrow> int \<Rightarrow> rng \<Rightarrow> error + (int \<times> rng)" where
  "randint low high r =
     (if high \<le> low then Inl ValueError
      else (case next_int r of (x, r') \<Rightarrow> Inr (low + int x mod (high - low), r')))"

text \<open>\<^verbatim>\<open>np.random.uniform(low, high)\<close>: \<open>low + (high - low) * u\<close> for a raw draw \<open>u\<close>.\<close>

definition uniform :: "real \<Rightarrow> real \<Rightarrow> rng \<Rightarrow> real \<times> rng" where
  "uniform low high r = (case next_real r of (u, r') \<Rightarrow> (low + (high - low) * u, r'))"

text \<open>\<^verbatim>\<open>np.random.shuffle\<close> (and \<^verbatim>\<open>np.random.permutation\<close>, which shuffles a copy):
  for \<open>i\<close> from the last index down to 1, swap the entries at \<open>i\<close> and at a random
  \<open>j\<close> in \<open>[0, i]\<close>.\<close>

definition swap :: "'a list \<Rightarrow> nat \<Rightarrow> nat \<Rightarrow> 'a list" where
  "swap xs i j = xs[i := xs ! j, j := xs ! i]"

fun shuffle_from :: "nat \<Rightarrow> 'a list \<Rightarrow> rng \<Rightarrow> 'a list \<times> rng" where
  "shuffle_from 0 xs r = (xs, r)"
| "shuffle_from (Suc i) xs r =
     (case next_int r of (x, r') \<Rightarrow> shuffle_from i (swap xs (Suc i) (x mod Suc (Suc i))) r')"

definition shuffle :: "'a list \<Rightarrow> rng \<Rightarrow> 'a list \<times> rng" where
  "shuffle xs r = shuffle_from (length xs - 1) xs r"

definition permutation :: "'a list \<Rightarrow> rng \<Rightarrow> 'a list \<times> rng" where
  "permutation xs r = shuffle xs r"

text \<open>\<^verbatim>\<open>make_locs(n, m)\<close>: every index of an \<open>n\<close> by \<open>m\<close> grid, row by row.\<close>

definition make_locs :: "nat \<Rightarrow> nat \<Rightarrow> loc list" where
  "make_locs n m = concat (map (\<lambda>i. map (\<lambda>j. (i, j)) [0..<m]) [0..<n])"

text \<open>\<^verbatim>\<open>locs_where(condition)\<close> on an \<open>n\<close> by \<open>n\<close> logical array: the cells where it
  is true, in the row-major order of \<^verbatim>\<open>np.nonzero\<close>.\<close>

definition locs_where :: "nat \<Rightarrow> (loc \<Rightarrow> bool) \<Rightarrow> loc list" where
  "locs_where n condition = filter condition (make_locs n n)"

text \<open>Index arithmetic with wrap: NumPy's \<^verbatim>\<open>%\<close> on integers is non-negative for a
  positive modulus and yields 0 (with a warning) for modulus 0.\<close>

definition np_mod :: "int \<Rightarrow> nat \<Rightarrow> nat" where
  "np_mod x n = (if n = 0 then 0 else nat (x mod int n))"

section \<open>The Schelling model\<close>

text \<open>An \<open>n\<close> by \<open>n\<close> array of small integers (0 empty, 1 red, 2 blue) and the
  threshold \<open>p\<close>. The array is a function of the coordinates, read inside the shape.\<close>

record schelling =
  sch_n :: nat
  sch_p :: real
  sch_array :: "loc \<Rightarrow> int"

text \<open>\<^verbatim>\<open>np.random.choice([0, 1, 2], (n, n), p=[0.1, 0.45, 0.45])\<close>: one uniform draw
  per cell, looked up in the cumulative weights.\<close>

definition choice3 :: "real \<Rightarrow> int" where
  "choice3 u = (if u < 1 / 10 then 0 else if u < 11 / 20 then 1 else 2)"

definition schelling_init :: "nat \<Rightarrow> real \<Rightarrow> rng \<Rightarrow> schelling \<times> rng" where
  "schelling_init n p r =
     (\<lparr>sch_n = n, sch_p = p,
       sch_array = (\<lambda>(i, j). choice3 (reals r (pos r + i * n + j)))\<rparr>,
      r\<lparr>pos := pos r + n * n\<rparr>)"

text \<open>The class attributes \<^verbatim>\<open>kernel\<close> and \<^verbatim>\<open>options\<close>
  (\<^verbatim>\<open>mode='same', boundary='wrap'\<close>).\<close>

definition kernel :: "int list list" where
  "kernel = [[1, 1, 1], [1, 0, 1], [1, 1, 1]]"

text \<open>\<^verbatim>\<open>scipy.signal.correlate2d(x, k, mode='same', boundary='wrap')\<close> for a 3 by 3
  kernel: the output has the shape of \<open>x\<close>, the kernel is centred on each cell and
  indices leaving the array wrap around.\<close>

definition correlate2d :: "nat \<Rightarrow> (loc \<Rightarrow> int) \<Rightarrow> int list list \<Rightarrow> loc \<Rightarrow> int" where
  "correlate2d n x k = (\<lambda>(i, j).
     sum_list (map (\<lambda>(u, v). k ! u ! v *
                      x (np_mod (int i + int u - 1) n, np_mod (int j + int v - 1) n))
                   (make_locs 3 3)))"

definition bool_array :: "(loc \<Rightarrow> bool) \<Rightarrow> loc \<Rightarrow> int" where
  "bool_array c = (\<lambda>l. if c l then 1 else 0)"

text \<open>The four results of \<^verbatim>\<open>count_neighbors\<close>; NaN is \<open>None\<close>.\<close>

definition num_red :: "schelling \<Rightarrow> loc \<Rightarrow> int" where
  "num_red s = correlate2d (sch_n s) (bool_array (\<lambda>l. sch_array s l = 1)) kernel"

definition num_blue :: "schelling \<Rightarrow> loc \<Rightarrow> int" where
  "num_blue s = correlate2d (sch_n s) (bool_array (\<lambda>l. sch_array s l = 2)) kernel"

definition num_neighbors :: "schelling \<Rightarrow> loc \<Rightarrow> int" where
  "num_neighbors s l = num_red s l + num_blue s l"

definition frac_red :: "schelling \<Rightarrow> loc \<Rightarrow> real" where
  "frac_red s l =
     (if num_neighbors s l = 0 then 0 else real_of_int (num_red s l) / real_of_int (num_neighbors s l))"

definition frac_blue :: "schelling \<Rightarrow> loc \<Rightarrow> real" where
  "frac_blue s l =
     (if num_neighbors s l = 0 then 0 else real_of_int (num_blue s l) / real_of_int (num_neighbors s l))"

definition empty_mask :: "schelling \<Rightarrow> loc \<Rightarrow> bool" where
  "empty_mask s l = (sch_array s l = 0)"

definition frac_same :: "schelling \<Rightarrow> loc \<Rightarrow> real option" where
  "frac_same s l =
     (if empty_mask s l then None
      else Some (if sch_array s l = 1 then frac_red s l else frac_blue s l))"

definition count_neighbors ::
  "schelling \<Rightarrow> (loc \<Rightarrow> bool) \<times> (loc \<Rightarrow> real) \<times> (loc \<Rightarrow> real) \<times> (loc \<Rightarrow> real option)" where
  "count_neighbors s = (empty_mask s, frac_red s, frac_blue s, frac_same s)"

text \<open>\<^verbatim>\<open>np.nanmean\<close>: the mean of the entries that are not NaN; NaN when there is none.\<close>

definition nanmean :: "real option list \<Rightarrow> real option" where
  "nanmean xs =
     (let vs = concat (map (\<lambda>x. case x of None \<Rightarrow> [] | Some v \<Rightarrow> [v]) xs)
      in if vs = [] then None else Some (sum_list vs / real (length vs)))"

definition segregation :: "schelling \<Rightarrow> real option" where
  "segregation s =
     (case count_neighbors s of (_, _, _, fs) \<Rightarrow> nanmean (map fs (make_locs (sch_n s) (sch_n s))))"

text \<open>The loop of \<^verbatim>\<open>step\<close> over the unhappy cells. Its state is the array, the list
  of empty cells and the random source; an exception leaves the state as it was when raised.\<close>

fun move_loop ::
  "nat \<Rightarrow> nat \<Rightarrow> loc list \<Rightarrow> (loc \<Rightarrow> int) \<times> loc list \<times> rng \<Rightarrow>
   error option \<times> (loc \<Rightarrow> int) \<times> loc list \<times> rng" where
  "move_loop n num_empty [] st = (None, st)"
| "move_loop n num_empty (source # rest) (a, empty_locs, r) =
     (case randint_below num_empty r of
        Inl e \<Rightarrow> (Some e, a, empty_locs, r)
      | Inr (i, r1) \<Rightarrow>
          if length empty_locs \<le> i then (Some IndexError, a, empty_locs, r1)
          else
            let dest = empty_locs ! i;
                a1 = a(dest := a source);
                a2 = a1(source := 0);
                empty_locs2 = empty_locs[i := source];
                num_empty2 = length (locs_where n (\<lambda>l. a2 l = 0))
            in if num_empty \<noteq> num_empty2 then (Some AssertionError, a2, empty_locs2, r1)
               else move_loop n num_empty rest (a2, empty_locs2, r1))"

definition unhappy :: "schelling \<Rightarrow> loc \<Rightarrow> bool" where
  "unhappy s l = (case frac_same s l of None \<Rightarrow> False | Some f \<Rightarrow> f < sch_p s)"

definition schelling_step :: "schelling \<Rightarrow> rng \<Rightarrow> (error + real option) \<times> schelling \<times> rng" where
  "schelling_step s r =
     (case count_neighbors s of (empty_m, _, _, fs) \<Rightarrow>
        let unhappy_locs = locs_where (sch_n s) (unhappy s);
            empty_locs = locs_where (sch_n s) empty_m;
            (unhappy_locs1, r1) =
               (if length unhappy_locs \<noteq> 0 then shuffle unhappy_locs r else (unhappy_locs, r));
            num_empty = length (locs_where (sch_n s) empty_m)
        in (case move_loop (sch_n s) num_empty unhappy_locs1 (sch_array s, empty_locs, r1) of
              (Some e, a, _, r2) \<Rightarrow> (Inl e, s\<lparr>sch_array := a\<rparr>, r2)
            | (None, a, _, r2) \<Rightarrow>
                (Inr (nanmean (map fs (make_locs (sch_n s) (sch_n s)))), s\<lparr>sch_array := a\<rparr>, r2)))"


section \<open>The Sugarscape model\<close>

text \<open>The keyword parameters of \<^verbatim>\<open>Sugarscape(n, **params)\<close>; a missing key is
  \<open>None\<close> and \<open>param_get\<close> is \<^verbatim>\<open>params.get(key, default)\<close>. The growth rate is an
  integer, as its default is; NumPy adds it to the \<^verbatim>\<open>int64\<close> array in \<^verbatim>\<open>int64\<close>.\<close>

record params =
  num_agents :: "nat option"
  starting_box :: "(nat \<times> nat) option"
  max_vision :: "int option"
  max_metabolism :: "real option"
  min_lifespan :: "real option"
  max_lifespan :: "real option"
  min_sugar :: "real option"
  max_sugar :: "real option"
  grow_rate :: "int64 option"
  replace :: "bool option"

definition param_get :: "'a option \<Rightarrow> 'a \<Rightarrow> 'a" where
  "param_get v d = (case v of None \<Rightarrow> d | Some x \<Rightarrow> x)"

record agent =
  loc :: loc
  age :: nat
  vision :: int
  metabolism :: real
  lifespan :: real
  sugar :: real

text \<open>\<^verbatim>\<open>Agent.__init__\<close>: the location, age 0, and four random attributes, drawn in
  this order.\<close>

definition new_agent :: "loc \<Rightarrow> params \<Rightarrow> rng \<Rightarrow> error + (agent \<times> rng)" where
  "new_agent l p r =
     (case randint 1 (param_get (max_vision p) 6 + 1) r of
        Inl e \<Rightarrow> Inl e
      | Inr (v, r1) \<Rightarrow>
          (case uniform 1 (param_get (max_metabolism p) 4) r1 of (m, r2) \<Rightarrow>
          (case uniform (param_get (min_lifespan p) 10000) (param_get (max_lifespan p) 10000) r2
             of (ls, r3) \<Rightarrow>
          (case uniform (param_get (min_sugar p) 5) (param_get (max_sugar p) 25) r3
             of (sg, r4) \<Rightarrow>
             Inr (\<lparr>loc = l, age = 0, vision = v, metabolism = m, lifespan = ls, sugar = sg\<rparr>,
                  r4)))))"

definition is_starving :: "agent \<Rightarrow> bool" where
  "is_starving a = (sugar a < 0)"

definition is_old :: "agent \<Rightarrow> bool" where
  "is_old a = (real (age a) > lifespan a)"

text \<open>The environment. Agents are objects that the list \<^verbatim>\<open>self.agents\<close> and the
  loop of \<^verbatim>\<open>step\<close> share by reference: \<open>agents\<close> is the list of references,
  \<open>heap\<close> maps a reference to the object and \<open>next_ref\<close> is the next unused one.\<close>

record sugarscape =
  env_n :: nat
  env_params :: params
  agent_count_seq :: "nat list"
  capacity :: "loc \<Rightarrow> int64"
  array :: "loc \<Rightarrow> int64"
  agents :: "nat list"
  heap :: "nat \<Rightarrow> agent"
  next_ref :: nat
  occupied :: "loc set"

definition in_grid :: "nat \<Rightarrow> loc \<Rightarrow> bool" where
  "in_grid n = (\<lambda>(i, j). i < n \<and> j < n)"

text \<open>\<^verbatim>\<open>make_visible_locs(vision)\<close>: for each distance 1..vision the four axis
  offsets, shuffled, then stacked; \<^verbatim>\<open>np.vstack\<close> raises on an empty list.\<close>

definition make_array :: "int \<Rightarrow> rng \<Rightarrow> (int \<times> int) list \<times> rng" where
  "make_array d r = shuffle [(- d, 0), (d, 0), (0, - d), (0, d)] r"

fun make_arrays :: "int list \<Rightarrow> rng \<Rightarrow> (int \<times> int) list list \<times> rng" where
  "make_arrays [] r = ([], r)"
| "make_arrays (d # ds) r =
     (case make_array d r of (a, r1) \<Rightarrow>
        (case make_arrays ds r1 of (as, r2) \<Rightarrow> (a # as, r2)))"

definition make_visible_locs :: "int \<Rightarrow> rng \<Rightarrow> error + ((int \<times> int) list \<times> rng)" where
  "make_visible_locs vis r =
     (case make_arrays [1..vis] r of (arrays, r1) \<Rightarrow>
        if arrays = [] then Inl ValueError else Inr (concat arrays, r1))"

text \<open>\<^verbatim>\<open>distances_from\<close>, \<^verbatim>\<open>np.digitize\<close> on decreasing bins (the number of bin
  edges above the value, an \<^verbatim>\<open>int64\<close>) and \<^verbatim>\<open>make_capacity\<close>.\<close>

definition distances_from :: "nat \<Rightarrow> int \<Rightarrow> int \<Rightarrow> loc \<Rightarrow> real" where
  "distances_from n i j = (\<lambda>(x, y). sqrt (real_of_int ((int x - i)\<^sup>2 + (int y - j)\<^sup>2)))"

definition digitize :: "real \<Rightarrow> real list \<Rightarrow> int64" where
  "digitize x bins = of_nat (length (filter (\<lambda>b. x < b) bins))"

definition make_capacity :: "nat \<Rightarrow> loc \<Rightarrow> int64" where
  "make_capacity n = (\<lambda>l.
     digitize (min (distances_from n 15 15 l) (distances_from n 35 35 l)) [21, 16, 11, 6])"

text \<open>\<^verbatim>\<open>make_agents\<close>: the agents are created one after the other at the first
  \<^verbatim>\<open>num_agents\<close> shuffled locations of the starting box.\<close>

fun new_agents ::
  "loc list \<Rightarrow> params \<Rightarrow> (nat \<Rightarrow> agent) \<Rightarrow> nat \<Rightarrow> rng \<Rightarrow>
   error + (nat list \<times> (nat \<Rightarrow> agent) \<times> nat \<times> rng)" where
  "new_agents [] p h nr r = Inr ([], h, nr, r)"
| "new_agents (l # ls) p h nr r =
     (case new_agent l p r of
        Inl e \<Rightarrow> Inl e
      | Inr (a, r1) \<Rightarrow>
          (case new_agents ls p (h(nr := a)) (Suc nr) r1 of
             Inl e \<Rightarrow> Inl e
           | Inr (refs, h', nr', r') \<Rightarrow> Inr (nr # refs, h', nr', r')))"

definition make_agents :: "sugarscape \<Rightarrow> rng \<Rightarrow> error + (sugarscape \<times> rng)" where
  "make_agents env r =
     (case param_get (starting_box (env_params env)) (env_n env, env_n env) of (bn, bm) \<Rightarrow>
      (case shuffle (make_locs bn bm) r of (locs, r1) \<Rightarrow>
         let num = param_get (num_agents (env_params env)) 400
         in if \<not> num \<le> length locs then Inl AssertionError
            else (case new_agents (take num locs) (env_params env) (heap env) (next_ref env) r1 of
                    Inl e \<Rightarrow> Inl e
                  | Inr (refs, h, nr, r2) \<Rightarrow>
                      Inr (env\<lparr>agents := refs, heap := h, next_ref := nr,
                               occupied := set (map (\<lambda>a. loc (h a)) refs)\<rparr>, r2))))"

definition no_agent :: agent where
  "no_agent = \<lparr>loc = (0, 0), age = 0, vision = 0, metabolism = 0, lifespan = 0, sugar = 0\<rparr>"

definition sugarscape_init :: "nat \<Rightarrow> params \<Rightarrow> rng \<Rightarrow> error + (sugarscape \<times> rng)" where
  "sugarscape_init n p r =
     make_agents \<lparr>env_n = n, env_params = p, agent_count_seq = [],
                  capacity = make_capacity n, array = make_capacity n,
                  agents = [], heap = (\<lambda>_. no_agent), next_ref = 0, occupied = {}\<rparr> r"

text \<open>\<^verbatim>\<open>np.minimum\<close> on \<^verbatim>\<open>int64\<close> (signed), and \<^verbatim>\<open>grow\<close>: the sum
  \<^verbatim>\<open>self.array + grow_rate\<close> is an \<^verbatim>\<open>int64\<close> sum and wraps around.\<close>

definition minimum :: "int64 \<Rightarrow> int64 \<Rightarrow> int64" where
  "minimum a b = (if sint a \<le> sint b then a else b)"

definition grow :: "sugarscape \<Rightarrow> sugarscape" where
  "grow env =
     (let rate = param_get (grow_rate (env_params env)) 1
      in env\<lparr>array := (\<lambda>l. minimum (array env l + rate) (capacity env l))\<rparr>)"

text \<open>\<^verbatim>\<open>np.argmax\<close> of a non-empty list of integers: the first index of the maximum.\<close>

fun argmax_from :: "int list \<Rightarrow> nat \<Rightarrow> nat \<Rightarrow> int \<Rightarrow> nat" where
  "argmax_from [] i best bv = best"
| "argmax_from (x # xs) i best bv =
     (if bv < x then argmax_from xs (Suc i) i x else argmax_from xs (Suc i) best bv)"

definition argmax :: "int list \<Rightarrow> nat" where
  "argmax t = (case t of [] \<Rightarrow> 0 | x # xs \<Rightarrow> argmax_from xs 1 0 x)"

definition look_and_move :: "sugarscape \<Rightarrow> loc \<Rightarrow> int \<Rightarrow> rng \<Rightarrow> error + (loc \<times> rng)" where
  "look_and_move env center vis r =
     (case make_visible_locs vis r of
        Inl e \<Rightarrow> Inl e
      | Inr (offs, r1) \<Rightarrow>
          let locs = map (\<lambda>(di, dj). (np_mod (di + int (fst center)) (env_n env),
                                    np_mod (dj + int (snd center)) (env_n env))) offs;
              empty_locs = filter (\<lambda>l. l \<notin> occupied env) locs
          in if length empty_locs = 0 then Inr (center, r1)
             else if \<not> list_all (in_grid (env_n env)) empty_locs then Inl IndexError
             else let t = map (\<lambda>l. sint (array env l)) empty_locs;
                      i = argmax t
                  in Inr (empty_locs ! i, r1))"

definition harvest :: "sugarscape \<Rightarrow> loc \<Rightarrow> error + (int64 \<times> sugarscape)" where
  "harvest env l =
     (if \<not> in_grid (env_n env) l then Inl IndexError
      else Inr (array env l, env\<lparr>array := (array env)(l := 0)\<rparr>))"

text \<open>\<^verbatim>\<open>Agent.step(env)\<close> for the agent object at reference \<open>a\<close>.\<close>

definition agent_step :: "nat \<Rightarrow> sugarscape \<Rightarrow> rng \<Rightarrow> error + (sugarscape \<times> rng)" where
  "agent_step a env r =
     (case look_and_move env (loc (heap env a)) (vision (heap env a)) r of
        Inl e \<Rightarrow> Inl e
      | Inr (l, r1) \<Rightarrow>
          let env1 = env\<lparr>heap := (heap env)(a := (heap env a)\<lparr>loc := l\<rparr>)\<rparr>
          in (case harvest env1 (loc (heap env1 a)) of
                Inl e \<Rightarrow> Inl e
              | Inr (s, env2) \<Rightarrow>
                  let ag = heap env2 a;
                      ag1 = ag\<lparr>sugar := sugar ag + (real_of_int (sint s) - metabolism ag)\<rparr>;
                      ag2 = ag1\<lparr>age := age ag1 + 1\<rparr>
                  in Inr (env2\<lparr>heap := (heap env2)(a := ag2)\<rparr>, r1)))"

text \<open>\<^verbatim>\<open>random_loc\<close>: draw cells until one is unoccupied. The loop has no bound, so
  not returning is the value \<open>None\<close>.\<close>

partial_function (option) random_loc :: "sugarscape \<Rightarrow> rng \<Rightarrow> (error + (loc \<times> rng)) option" where
  "random_loc env r =
     (case randint_below (env_n env) r of
        Inl e \<Rightarrow> Some (Inl e)
      | Inr (i, r1) \<Rightarrow>
          (case randint_below (env_n env) r1 of
             Inl e \<Rightarrow> Some (Inl e)
           | Inr (j, r2) \<Rightarrow>
               if (i, j) \<notin> occupied env then Some (Inr ((i, j), r2))
               else random_loc env r2))"

definition add_agent :: "sugarscape \<Rightarrow> rng \<Rightarrow> (error + (sugarscape \<times> rng)) option" where
  "add_agent env r =
     (case random_loc env r of
        None \<Rightarrow> None
      | Some (Inl e) \<Rightarrow> Some (Inl e)
      | Some (Inr (l, r1)) \<Rightarrow>
          (case new_agent l (env_params env) r1 of
             Inl e \<Rightarrow> Some (Inl e)
           | Inr (ag, r2) \<Rightarrow>
               Some (Inr (env\<lparr>agents := agents env @ [next_ref env],
                               heap := (heap env)(next_ref env := ag),
                               next_ref := Suc (next_ref env),
                               occupied := insert (loc ag) (occupied env)\<rparr>, r2))))"

text \<open>The body of the loop of \<^verbatim>\<open>Sugarscape.step\<close> for one agent, the loop, and
  \<^verbatim>\<open>step\<close> itself.\<close>

definition visit :: "nat \<Rightarrow> sugarscape \<times> rng \<Rightarrow> (error + (sugarscape \<times> rng)) option" where
  "visit a = (\<lambda>(env, r).
     if loc (heap env a) \<notin> occupied env then Some (Inl KeyError)
     else
       let env1 = env\<lparr>occupied := occupied env - {loc (heap env a)}\<rparr>
       in (case agent_step a env1 r of
             Inl e \<Rightarrow> Some (Inl e)
           | Inr (env2, r2) \<Rightarrow>
               if is_starving (heap env2 a) \<or> is_old (heap env2 a) then
                 (if a \<notin> set (agents env2) then Some (Inl ValueError)
                  else
                    let env3 = env2\<lparr>agents := remove1 a (agents env2)\<rparr>
                    in if param_get (replace (env_params env3)) False then add_agent env3 r2
                       else Some (Inr (env3, r2)))
               else Some (Inr (env2\<lparr>occupied := insert (loc (heap env2 a)) (occupied env2)\<rparr>, r2))))"

fun visit_all :: "nat list \<Rightarrow> sugarscape \<times> rng \<Rightarrow> (error + (sugarscape \<times> rng)) option" where
  "visit_all [] st = Some (Inr st)"
| "visit_all (a # rest) st =
     (case visit a st of
        None \<Rightarrow> None
      | Some (Inl e) \<Rightarrow> Some (Inl e)
      | Some (Inr st') \<Rightarrow> visit_all rest st')"

definition sugarscape_step :: "sugarscape \<Rightarrow> rng \<Rightarrow> (error + (nat \<times> sugarscape \<times> rng)) option" where
  "sugarscape_step env r =
     (case permutation (agents env) r of (random_order, r1) \<Rightarrow>
        (case visit_all random_order (env, r1) of
           None \<Rightarrow> None
         | Some (Inl e) \<Rightarrow> Some (Inl e)
         | Some (Inr (env1, r2)) \<Rightarrow>
             let env2 = env1\<lparr>agent_count_seq := agent_count_seq env1 @ [length (agents env1)]\<rparr>;
                 env3 = grow env2
             in Some (Inr (length (agents env3), env3, r2))))"




section \<open>Derived notions used by the statements\<close>

subsection \<open>Schelling\<close>

text \<open>The empty cells of an array, \<^verbatim>\<open>np.sum(a == 0)\<close> and the number of occupied cells.\<close>

definition empties :: "nat \<Rightarrow> (loc \<Rightarrow> int) \<Rightarrow> loc set" where
  "empties n a = {l \<in> set (make_locs n n). a l = 0}"

definition num_empty_cells :: "schelling \<Rightarrow> nat" where
  "num_empty_cells s = length (locs_where (sch_n s) (\<lambda>l. sch_array s l = 0))"

definition num_occupied_cells :: "schelling \<Rightarrow> nat" where
  "num_occupied_cells s = length (locs_where (sch_n s) (\<lambda>l. sch_array s l \<noteq> 0))"

text \<open>The order in which \<^verbatim>\<open>step\<close> visits the unhappy cells, and the state of the
  grid after the first \<open>k\<close> of them were handled.\<close>

definition unhappy_order :: "schelling \<Rightarrow> rng \<Rightarrow> loc list \<times> rng" where
  "unhappy_order s r =
     (let unhappy_locs = locs_where (sch_n s) (unhappy s)
      in if length unhappy_locs \<noteq> 0 then shuffle unhappy_locs r else (unhappy_locs, r))"

definition after_moves :: "schelling \<Rightarrow> rng \<Rightarrow> nat \<Rightarrow> error option \<times> schelling" where
  "after_moves s r k =
     (case unhappy_order s r of (us, r1) \<Rightarrow>
        (case move_loop (sch_n s) (num_empty_cells s) (take k us)
                (sch_array s, locs_where (sch_n s) (empty_mask s), r1) of
           (e, a, _, _) \<Rightarrow> (e, s\<lparr>sch_array := a\<rparr>)))"

text \<open>The survey as the specification words it: the eight neighbours of a cell on the
  torus, and the share of the occupied ones that have the cell's own type.\<close>

definition neighbor_offsets :: "(int \<times> int) list" where
  "neighbor_offsets = [(-1, -1), (-1, 0), (-1, 1), (0, -1), (0, 1), (1, -1), (1, 0), (1, 1)]"

definition neighbors8 :: "nat \<Rightarrow> loc \<Rightarrow> loc list" where
  "neighbors8 n = (\<lambda>(i, j).
     map (\<lambda>(di, dj). (np_mod (int i + di) n, np_mod (int j + dj) n)) neighbor_offsets)"

definition spec_frac_same :: "schelling \<Rightarrow> loc \<Rightarrow> real option" where
  "spec_frac_same s l =
     (if sch_array s l = 0 then None
      else let nb = neighbors8 (sch_n s) l;
               occ = filter (\<lambda>m. sch_array s m \<noteq> 0) nb;
               same = filter (\<lambda>m. sch_array s m = sch_array s l) nb
           in Some (if occ = [] then 0 else real (length same) / real (length occ)))"

definition valid_grid :: "schelling \<Rightarrow> bool" where
  "valid_grid s = (\<forall>l \<in> set (make_locs (sch_n s) (sch_n s)). sch_array s l \<in> {0, 1, 2})"

text \<open>The mean of \<open>frac_same\<close> over the occupied cells, as the specification words it.\<close>

definition mean_over_occupied :: "schelling \<Rightarrow> real option" where
  "mean_over_occupied s =
     (let occ = locs_where (sch_n s) (\<lambda>l. sch_array s l \<noteq> 0)
      in if occ = [] then None
         else Some (sum_list (map (\<lambda>l. case frac_same s l of None \<Rightarrow> 0 | Some f \<Rightarrow> f) occ)
                    / real (length occ)))"

definition present :: "real option list \<Rightarrow> real list" where
  "present xs = concat (map (\<lambda>x. case x of None \<Rightarrow> [] | Some v \<Rightarrow> [v]) xs)"

text \<open>Concrete inputs: a random source of zeros, a full 2 by 2 checkerboard, a 2 by 2 grid
  with one empty cell and a 3 by 3 grid.\<close>

definition rng0 :: rng where
  "rng0 = \<lparr>ints = (\<lambda>_. 0), reals = (\<lambda>_. 0), pos = 0\<rparr>"

definition checkerboard :: schelling where
  "checkerboard = \<lparr>sch_n = 2, sch_p = 3 / 5,
     sch_array = (\<lambda>(i, j). if (i + j) mod 2 = 0 then 1 else 2)\<rparr>"

definition small_grid :: schelling where
  "small_grid = \<lparr>sch_n = 2, sch_p = 3 / 5,
     sch_array = (\<lambda>l. if l = (0, 0) then 1 else if l = (0, 1) then 2
                      else if l = (1, 0) then 0 else 1)\<rparr>"

definition grid3 :: schelling where
  "grid3 = \<lparr>sch_n = 3, sch_p = 3 / 10, sch_array = (\<lambda>(i, j). int ((i + 2 * j) mod 3))\<rparr>"

subsection \<open>Sugarscape\<close>

text \<open>The locations of the agents in list order, and the occupancy invariant: the agent
  list holds no reference twice, no two agents share a location, the occupancy index is the
  set of the agents' locations, and every reference in use was allocated.\<close>

definition locs_of :: "sugarscape \<Rightarrow> loc list" where
  "locs_of env = map (\<lambda>a. loc (heap env a)) (agents env)"

definition occ_inv :: "sugarscape \<Rightarrow> bool" where
  "occ_inv env =
     (distinct (agents env) \<and> distinct (locs_of env) \<and> occupied env = set (locs_of env) \<and>
      list_all (\<lambda>a. a < next_ref env) (agents env))"

text \<open>The states a program can reach: built by the constructor, then changed by the public
  operations, each of which returned.\<close>

inductive reachable :: "sugarscape \<Rightarrow> bool" where
  init: "sugarscape_init n p r = Inr (env, r') \<Longrightarrow> reachable env"
| step: "reachable env \<Longrightarrow> sugarscape_step env r = Some (Inr (k, env', r')) \<Longrightarrow> reachable env'"
| add: "reachable env \<Longrightarrow> add_agent env r = Some (Inr (env', r')) \<Longrightarrow> reachable env'"
| make: "reachable env \<Longrightarrow> make_agents env r = Inr (env', r') \<Longrightarrow> reachable env'"
| grow: "reachable env \<Longrightarrow> reachable (grow env)"
| harvest: "reachable env \<Longrightarrow> harvest env l = Inr (v, env') \<Longrightarrow> reachable env'"

text \<open>The resource invariants: no level above the capacity (and no negative capacity), and
  no negative level in the grid. The growth rate fits when it is not negative and its sum
  with the capacity of every cell of the grid is an \<^verbatim>\<open>int64\<close>, so that no sum in
  \<^verbatim>\<open>grow\<close> wraps around.\<close>

definition cap_inv :: "sugarscape \<Rightarrow> bool" where
  "cap_inv env = (\<forall>l. sint (array env l) \<le> sint (capacity env l) \<and> 0 \<le> sint (capacity env l))"

definition nonneg_inv :: "sugarscape \<Rightarrow> bool" where
  "nonneg_inv env = (\<forall>l. in_grid (env_n env) l \<longrightarrow> 0 \<le> sint (array env l))"

definition rate_fits :: "sugarscape \<Rightarrow> bool" where
  "rate_fits env =
     (0 \<le> sint (param_get (grow_rate (env_params env)) 1) \<and>
      (\<forall>l. in_grid (env_n env) l \<longrightarrow>
           sint (capacity env l) + sint (param_get (grow_rate (env_params env)) 1) < 2 ^ 63))"

text \<open>Concrete configurations: no keyword given; two agents on a 2 by 2 grid; one short-lived
  agent with replacement on a 1 by 1 grid; no agent and a negative growth rate; three
  short-lived agents with replacement on a 2 by 2 grid, with a random source of ones.\<close>

definition default_params :: params where
  "default_params = \<lparr>num_agents = None, starting_box = None, max_vision = None,
     max_metabolism = None, min_lifespan = None, max_lifespan = None, min_sugar = None,
     max_sugar = None, grow_rate = None, replace = None\<rparr>"

definition params_a :: params where
  "params_a = default_params\<lparr>num_agents := Some 2\<rparr>"

definition params_b :: params where
  "params_b = default_params\<lparr>num_agents := Some 1, min_lifespan := Some 0,
     max_lifespan := Some 0, replace := Some True\<rparr>"

definition params_c :: params where
  "params_c = default_params\<lparr>num_agents := Some 0, grow_rate := Some (- 1)\<rparr>"

definition params_d :: params where
  "params_d = default_params\<lparr>num_agents := Some 3, max_vision := Some 1,
     min_lifespan := Some 0, max_lifespan := Some 0, replace := Some True\<rparr>"

definition rng1 :: rng where
  "rng1 = \<lparr>ints = (\<lambda>_. 1), reals = (\<lambda>_. 0), pos = 0\<rparr>"

text \<open>The environment that \<^verbatim>\<open>Sugarscape(1, num_agents=0, grow_rate=-1)\<close> builds.\<close>

definition env_c :: sugarscape where
  "env_c = \<lparr>env_n = 1, env_params = params_c, agent_count_seq = [],
              capacity = make_capacity 1, array = make_capacity 1,
              agents = [], heap = (\<lambda>_. no_agent), next_ref = 0, occupied = {}\<rparr>"

text \<open>The environments that \<^verbatim>\<open>Sugarscape(2, num_agents=2)\<close> and
  \<^verbatim>\<open>Sugarscape(1, num_agents=1, min_lifespan=0, max_lifespan=0, replace=True)\<close> build from
  the random source of zeros.\<close>

definition env_a :: sugarscape where
  "env_a = \<lparr>env_n = 2, env_params = params_a, agent_count_seq = [],
     capacity = make_capacity 2, array = make_capacity 2,
     agents = [0, 1],
     heap = (\<lambda>_. no_agent)
       (0 := \<lparr>loc = (0, 1), age = 0, vision = 1, metabolism = 1, lifespan = 10000, sugar = 5\<rparr>,
        1 := \<lparr>loc = (1, 0), age = 0, vision = 1, metabolism = 1, lifespan = 10000, sugar = 5\<rparr>),
     next_ref = 2, occupied = {(0, 1), (1, 0)}\<rparr>"

definition env_b :: sugarscape where
  "env_b = \<lparr>env_n = 1, env_params = params_b, agent_count_seq = [],
     capacity = make_capacity 1, array = make_capacity 1,
     agents = [0],
     heap = (\<lambda>_. no_agent)
       (0 := \<lparr>loc = (0, 0), age = 0, vision = 1, metabolism = 1, lifespan = 0, sugar = 5\<rparr>),
     next_ref = 1, occupied = {(0, 0)}\<rparr>"

text \<open>The environment that \<^verbatim>\<open>Sugarscape(2, num_agents=0, grow_rate=2**63-1)\<close> builds.\<close>

definition params_e :: params where
  "params_e = default_params\<lparr>num_agents := Some 0, grow_rate := Some 0x7FFFFFFFFFFFFFFF\<rparr>"

definition env_e :: sugarscape where
  "env_e = \<lparr>env_n = 2, env_params = params_e, agent_count_seq = [],
              capacity = make_capacity 2, array = make_capacity 2,
              agents = [], heap = (\<lambda>_. no_agent), next_ref = 0, occupied = {}\<rparr>"

text \<open>The occupancy index matches the agent population.\<close>

definition index_matches :: "sugarscape \<Rightarrow> bool" where
  "index_matches env =
     (card (occupied env) = length (agents env) \<and>
      list_all (\<lambda>a. loc (heap env a) \<in> occupied env) (agents env) \<and>
      distinct (locs_of env) \<and> occupied env = set (locs_of env))"

text \<open>The cell that the \<open>k\<close>-th round of \<^verbatim>\<open>random_loc\<close> draws. A random source is
  never stuck on fewer than \<open>m\<close> cells of an \<open>n\<close> by \<open>n\<close> grid when, from every position
  on, the cells it proposes leave every set of fewer than \<open>m\<close> cells that does not hold the
  whole grid; it is fair when it keeps proposing every cell of the grid.\<close>

definition attempt :: "sugarscape \<Rightarrow> rng \<Rightarrow> nat \<Rightarrow> loc" where
  "attempt env r k =
     (ints r (pos r + 2 * k) mod env_n env, ints r (pos r + 2 * k + 1) mod env_n env)"

definition never_stuck :: "nat \<Rightarrow> nat \<Rightarrow> (nat \<Rightarrow> nat) \<Rightarrow> bool" where
  "never_stuck n m f =
     (\<forall>p S. finite S \<and> card S < m \<and> (\<exists>i j. i < n \<and> j < n \<and> (i, j) \<notin> S) \<longrightarrow>
            (\<exists>k. (f (p + 2 * k) mod n, f (p + 2 * k + 1) mod n) \<notin> S))"


text \<open>Two sources hold the same sequences of draws.\<close>

definition advanced :: "rng \<Rightarrow> rng \<Rightarrow> bool" where
  "advanced r r' = (ints r' = ints r \<and> reals r' = reals r)"

text \<open>The environment that
  \<^verbatim>\<open>Sugarscape(2, num_agents=3, max_vision=1, min_lifespan=0, max_lifespan=0, replace=True)\<close>
  builds from the random source of ones.\<close>

definition env_d :: sugarscape where
  "env_d = \<lparr>env_n = 2, env_params = params_d, agent_count_seq = [],
     capacity = make_capacity 2, array = make_capacity 2,
     agents = [0, 1, 2],
     heap = (\<lambda>_. no_agent)
       (0 := \<lparr>loc = (0, 0), age = 0, vision = 1, metabolism = 1, lifespan = 0, sugar = 5\<rparr>,
        1 := \<lparr>loc = (1, 0), age = 0, vision = 1, metabolism = 1, lifespan = 0, sugar = 5\<rparr>,
        2 := \<lparr>loc = (1, 1), age = 0, vision = 1, metabolism = 1, lifespan = 0, sugar = 5\<rparr>),
     next_ref = 3, occupied = {(0, 0), (1, 0), (1, 1)}\<rparr>"



text \<open>The visibility set as the specification words it: the four axis offsets at each distance
  1..vision; the distance of an offset; and an offset translated by the centre, with wrap.\<close>

definition ring :: "int \<Rightarrow> (int \<times> int) list" where
  "ring d = [(- d, 0), (d, 0), (0, - d), (0, d)]"

definition visible_offsets :: "int \<Rightarrow> (int \<times> int) set" where
  "visible_offsets v = (\<Union>d \<in> {1..v}. set (ring d))"

definition ring_dist :: "int \<times> int \<Rightarrow> int" where
  "ring_dist = (\<lambda>(di, dj). max \<bar>di\<bar> \<bar>dj\<bar>)"

definition translate :: "sugarscape \<Rightarrow> loc \<Rightarrow> int \<times> int \<Rightarrow> loc" where
  "translate env center = (\<lambda>(di, dj).
     (np_mod (di + int (fst center)) (env_n env), np_mod (dj + int (snd center)) (env_n env)))"

subsection \<open>Runs and their random sources\<close>

text \<open>Two random sources give the same sequence of draws: from their cursors on, the draws
  agree one by one. The cursors themselves, and the draws before them, may differ.\<close>

definition same_draws :: "rng \<Rightarrow> rng \<Rightarrow> bool" where
  "same_draws r1 r2 =
     ((\<forall>i. ints r1 (pos r1 + i) = ints r2 (pos r2 + i)) \<and>
      (\<forall>i. reals r1 (pos r1 + i) = reals r2 (pos r2 + i)))"



section \<open>Lists, shuffles and grids\<close>

lemma set_make_locs: "set (make_locs n m) = {(i, j). i < n \<and> j < m}"
  by (auto simp: make_locs_def)

lemma distinct_make_locs: "distinct (make_locs n m)"
proof -
  have "make_locs n m = List.product [0..<n] [0..<m]"
    by (simp add: make_locs_def product_concat_map)
  then show ?thesis by (simp add: distinct_product)
qed

lemma length_make_locs: "length (make_locs n m) = n * m"
proof -
  have "make_locs n m = List.product [0..<n] [0..<m]"
    by (simp add: make_locs_def product_concat_map)
  then show ?thesis by simp
qed

lemma in_grid_iff: "in_grid n l = (l \<in> set (make_locs n n))"
  by (cases l) (simp add: in_grid_def set_make_locs)

lemma length_locs_where:
  "length (locs_where n c) = card {l \<in> set (make_locs n n). c l}"
proof -
  have "distinct (locs_where n c)"
    by (simp add: locs_where_def distinct_make_locs)
  then have "length (locs_where n c) = card (set (locs_where n c))"
    by (simp add: distinct_card)
  then show ?thesis by (simp add: locs_where_def)
qed

lemma length_swap [simp]: "length (swap xs i j) = length xs"
  by (simp add: swap_def)

lemma mset_swap_list: "i < length xs \<Longrightarrow> j < length xs \<Longrightarrow> mset (swap xs i j) = mset xs"
  unfolding swap_def using mset_swap[of j xs i] by simp

lemma shuffle_from_mset:
  "i < length xs \<Longrightarrow> mset (fst (shuffle_from i xs r)) = mset xs"
proof (induction i arbitrary: xs r)
  case 0
  then show ?case by simp
next
  case (Suc i)
  have j: "ints r (pos r) mod Suc (Suc i) < length xs"
    using Suc.prems
    by (meson Suc_lessI less_Suc_eq less_trans_Suc mod_less_divisor not_less_eq zero_less_Suc)
  show ?case using Suc.prems j
    by (simp add: next_int_def Suc.IH mset_swap_list)
qed

lemma shuffle_mset: "mset (fst (shuffle xs r)) = mset xs"
  by (cases xs) (simp_all add: shuffle_def shuffle_from_mset)

lemma shuffle_set: "set (fst (shuffle xs r)) = set xs"
  using shuffle_mset[of xs r] by (metis set_mset_mset)

lemma shuffle_distinct: "distinct (fst (shuffle xs r)) = distinct xs"
  using shuffle_mset[of xs r] by (metis mset_eq_imp_distinct_iff)

lemma shuffle_length: "length (fst (shuffle xs r)) = length xs"
  using shuffle_mset[of xs r] by (metis size_mset)

section \<open>Schelling: the move loop keeps the number of empty cells\<close>

lemma count_empties: "length (locs_where n (\<lambda>l. a l = 0)) = card (empties n a)"
  by (simp add: length_locs_where empties_def)

lemma empties_move:
  assumes "dest \<in> empties n a" "source \<in> set (make_locs n n)" "a source \<noteq> 0"
  shows "empties n (a(dest := a source, source := 0)) = insert source (empties n a - {dest})"
  using assms by (auto simp: empties_def)

lemma randint_below_cases:
  "randint_below k r = (if k = 0 then Inl ValueError
     else Inr (ints r (pos r) mod k, r\<lparr>pos := Suc (pos r)\<rparr>))"
  by (simp add: randint_below_def next_int_def)

text \<open>The invariant of the loop: the list of empty cells has no duplicates and holds exactly
  the empty cells of the array, and the cells still to move are distinct and occupied.\<close>

lemma move_loop_inv:
  assumes "distinct empty_locs" "set empty_locs = empties n a" "length empty_locs = num_empty"
    and "distinct srcs" "set srcs \<subseteq> set (make_locs n n)" "\<forall>l\<in>set srcs. a l \<noteq> 0"
    and "move_loop n num_empty srcs (a, empty_locs, r) = (res, a', el', r')"
  shows "card (empties n a') = num_empty \<and>
         res = (if srcs \<noteq> [] \<and> num_empty = 0 then Some ValueError else None) \<and>
         (res \<noteq> None \<longrightarrow> a' = a \<and> r' = r)"
  using assms
proof (induction srcs arbitrary: a empty_locs r)
  case Nil
  have "card (empties n a) = num_empty"
    using Nil.prems(1,2,3) distinct_card by metis
  then show ?case using Nil.prems(7) by simp
next
  case (Cons source rest)
  show ?case
  proof (cases "num_empty = 0")
    case True
    have "card (empties n a) = num_empty"
      using Cons.prems(1,2,3) distinct_card by metis
    then show ?thesis using True Cons.prems(7)
      by (simp add: randint_below_cases)
  next
    case False
    define i where "i = ints r (pos r) mod num_empty"
    define r1 where "r1 = r\<lparr>pos := Suc (pos r)\<rparr>"
    define dest where "dest = empty_locs ! i"
    define a2 where "a2 = a(dest := a source, source := 0)"
    define el2 where "el2 = empty_locs[i := source]"
    have i: "i < length empty_locs" using False Cons.prems(3) by (simp add: i_def)
    have dest: "dest \<in> empties n a"
      using nth_mem[OF i] Cons.prems(2) by (simp add: dest_def)
    have src: "source \<in> set (make_locs n n)" "a source \<noteq> 0"
      using Cons.prems(5,6) by auto
    have src_not: "source \<notin> set empty_locs"
      using src Cons.prems(2) by (auto simp: empties_def)
    have e2: "empties n a2 = insert source (empties n a - {dest})"
      unfolding a2_def using empties_move[OF dest src] .
    have set2: "set el2 = insert source (set empty_locs - {dest})"
      unfolding el2_def dest_def using i Cons.prems(1)
      by (simp add: set_update_distinct)
    have d2: "distinct el2"
      unfolding el2_def using Cons.prems(1) src_not by (simp add: distinct_list_update)
    have l2: "length el2 = num_empty" using Cons.prems(3) by (simp add: el2_def)
    have s2: "set el2 = empties n a2" using set2 e2 Cons.prems(2) by simp
    have c2: "card (empties n a2) = num_empty" using d2 l2 s2 distinct_card by metis
    have rest_ok: "\<forall>l\<in>set rest. a2 l \<noteq> 0"
      using Cons.prems(4,6) dest by (auto simp: a2_def empties_def)
    have step: "move_loop n num_empty (source # rest) (a, empty_locs, r) =
                move_loop n num_empty rest (a2, el2, r1)"
      using False i c2
      by (simp add: randint_below_cases i_def[symmetric] r1_def[symmetric] Let_def
            dest_def[symmetric] a2_def[symmetric] el2_def[symmetric] count_empties)
    have rec: "move_loop n num_empty rest (a2, el2, r1) = (res, a', el', r')"
      using Cons.prems(7) by (simp only: step)
    have IH: "card (empties n a') = num_empty \<and>
         res = (if rest \<noteq> [] \<and> num_empty = 0 then Some ValueError else None) \<and>
         (res \<noteq> None \<longrightarrow> a' = a2 \<and> r' = r1)"
      using Cons.IH[OF d2 s2 l2 _ _ rest_ok rec] Cons.prems(4,5) by simp
    then show ?thesis using False by simp
  qed
qed

lemma empty_mask_eq: "empty_mask s = (\<lambda>l. sch_array s l = 0)"
  by (rule ext) (simp add: empty_mask_def)

lemma unhappy_occupied: "unhappy s l \<Longrightarrow> sch_array s l \<noteq> 0"
  by (auto simp: unhappy_def frac_same_def empty_mask_def split: option.splits if_splits)

lemma unhappy_iff:
  "unhappy s l = (sch_array s l \<noteq> 0 \<and> (\<exists>f. frac_same s l = Some f \<and> f < sch_p s))"
  by (auto simp: unhappy_def frac_same_def empty_mask_def split: option.splits if_splits)

lemma unhappy_order_facts:
  assumes "unhappy_order s r = (us, r1)"
  shows "distinct us" "set us = {l \<in> set (make_locs (sch_n s) (sch_n s)). unhappy s l}"
    "(us = []) = (locs_where (sch_n s) (unhappy s) = [])"
proof -
  let ?ul = "locs_where (sch_n s) (unhappy s)"
  have d: "distinct ?ul" by (simp add: locs_where_def distinct_make_locs)
  have us: "us = (if ?ul \<noteq> [] then fst (shuffle ?ul r) else ?ul)"
    using assms by (auto simp: unhappy_order_def Let_def split: if_splits)
  show "distinct us" using d us by (simp add: shuffle_distinct)
  have su: "set us = set ?ul" using us by (simp add: shuffle_set)
  then show "set us = {l \<in> set (make_locs (sch_n s) (sch_n s)). unhappy s l}"
    by (simp add: locs_where_def)
  from su show "(us = []) = (?ul = [])" by (metis set_empty)
qed

lemma move_loop_from_start:
  assumes "unhappy_order s r = (us, r1)" "set vs \<subseteq> set us" "distinct vs"
    and "move_loop (sch_n s) (num_empty_cells s) vs
           (sch_array s, locs_where (sch_n s) (empty_mask s), r1) = (res, a', el', r')"
  shows "card (empties (sch_n s) a') = num_empty_cells s \<and>
         res = (if vs \<noteq> [] \<and> num_empty_cells s = 0 then Some ValueError else None) \<and>
         (res \<noteq> None \<longrightarrow> a' = sch_array s \<and> r' = r1)"
proof (rule move_loop_inv[OF _ _ _ assms(3) _ _ assms(4)])
  show "distinct (locs_where (sch_n s) (empty_mask s))"
    by (simp add: locs_where_def distinct_make_locs)
  show "set (locs_where (sch_n s) (empty_mask s)) = empties (sch_n s) (sch_array s)"
    by (auto simp: locs_where_def empties_def empty_mask_def)
  show "length (locs_where (sch_n s) (empty_mask s)) = num_empty_cells s"
    by (simp add: num_empty_cells_def empty_mask_eq)
  show "set vs \<subseteq> set (make_locs (sch_n s) (sch_n s))"
    using assms(2) unhappy_order_facts(2)[OF assms(1)] by auto
  show "\<forall>l\<in>set vs. sch_array s l \<noteq> 0"
    using assms(2) unhappy_order_facts(2)[OF assms(1)] unhappy_occupied by auto
qed

lemma schelling_step_unfold:
  "schelling_step s r =
     (case unhappy_order s r of (us, r1) \<Rightarrow>
        (case move_loop (sch_n s) (num_empty_cells s) us
                (sch_array s, locs_where (sch_n s) (empty_mask s), r1) of
           (Some e, a, _, r2) \<Rightarrow> (Inl e, s\<lparr>sch_array := a\<rparr>, r2)
         | (None, a, _, r2) \<Rightarrow> (Inr (segregation s), s\<lparr>sch_array := a\<rparr>, r2)))"
  by (simp add: schelling_step_def count_neighbors_def segregation_def unhappy_order_def
        num_empty_cells_def Let_def empty_mask_eq split: prod.splits option.splits)

lemma schelling_step_char:
  assumes "schelling_step s r = (res, s', r')"
  shows "num_empty_cells s' = num_empty_cells s"
    and "res = (if locs_where (sch_n s) (unhappy s) \<noteq> [] \<and> num_empty_cells s = 0
                then Inl ValueError else Inr (segregation s))"
    and "sch_n s' = sch_n s" and "sch_p s' = sch_p s"
    and "(\<exists>e. res = Inl e) \<Longrightarrow> s' = s"
proof -
  obtain us r1 where u: "unhappy_order s r = (us, r1)" by (cases "unhappy_order s r")
  obtain e a el r2 where m: "move_loop (sch_n s) (num_empty_cells s) us
                (sch_array s, locs_where (sch_n s) (empty_mask s), r1) = (e, a, el, r2)"
    by (metis prod_cases4)
  have f: "card (empties (sch_n s) a) = num_empty_cells s"
      "e = (if us \<noteq> [] \<and> num_empty_cells s = 0 then Some ValueError else None)"
      "e \<noteq> None \<longrightarrow> a = sch_array s \<and> r2 = r1"
    using move_loop_from_start[OF u _ unhappy_order_facts(1)[OF u] m] by simp_all
  have s': "s' = s\<lparr>sch_array := a\<rparr>"
    and res: "res = (case e of Some x \<Rightarrow> Inl x | None \<Rightarrow> Inr (segregation s))"
    using assms by (auto simp: schelling_step_unfold u m split: option.splits)
  show "num_empty_cells s' = num_empty_cells s"
    using f(1) by (simp add: s' num_empty_cells_def count_empties)
  show "res = (if locs_where (sch_n s) (unhappy s) \<noteq> [] \<and> num_empty_cells s = 0
                then Inl ValueError else Inr (segregation s))"
    using res f(2) unhappy_order_facts(3)[OF u] by auto
  show "sch_n s' = sch_n s" "sch_p s' = sch_p s" by (simp_all add: s')
  show "s' = s" if "\<exists>e. res = Inl e"
    using that res f(3) by (auto simp: s' split: option.splits)
qed

lemma after_moves_char:
  "fst (after_moves s r k) \<noteq> Some AssertionError \<and>
   num_empty_cells (snd (after_moves s r k)) = num_empty_cells s \<and>
   sch_n (snd (after_moves s r k)) = sch_n s"
proof -
  obtain us r1 where u: "unhappy_order s r = (us, r1)" by (cases "unhappy_order s r")
  obtain e a el r2 where m: "move_loop (sch_n s) (num_empty_cells s) (take k us)
                (sch_array s, locs_where (sch_n s) (empty_mask s), r1) = (e, a, el, r2)"
    by (metis prod_cases4)
  have f: "card (empties (sch_n s) a) = num_empty_cells s"
      "e = (if take k us \<noteq> [] \<and> num_empty_cells s = 0 then Some ValueError else None)"
    using move_loop_from_start[OF u set_take_subset distinct_take[OF unhappy_order_facts(1)[OF u]] m]
    by simp_all
  have am: "after_moves s r k = (e, s\<lparr>sch_array := a\<rparr>)"
    by (simp add: after_moves_def u m)
  show ?thesis using f by (simp add: am num_empty_cells_def count_empties split: if_splits)
qed

lemma after_all_moves:
  "snd (after_moves s r (length (fst (unhappy_order s r)))) = fst (snd (schelling_step s r))"
  by (simp add: after_moves_def schelling_step_unfold split: prod.splits option.splits)

lemma cells_partition: "num_empty_cells s + num_occupied_cells s = sch_n s * sch_n s"
  using sum_length_filter_compl[of "\<lambda>l. sch_array s l = 0" "make_locs (sch_n s) (sch_n s)"]
  by (simp add: num_empty_cells_def num_occupied_cells_def locs_where_def length_make_locs)

text \<open>
  \<^bold>\<open>C2.\<close> One call to \<^verbatim>\<open>Schelling.step\<close> leaves the number of empty cells, and so the
  number of occupied cells, as it was, whatever the grid and the random draws, also when the
  call raises. The same holds after each single move of the tick (the state after the first
  \<open>k\<close> moves, for every \<open>k\<close>), and the assertion in the loop never fails.
\<close>

theorem schelling_step_keeps_empty_count:
  "num_empty_cells (fst (snd (schelling_step s r))) = num_empty_cells s \<and>
   num_occupied_cells (fst (snd (schelling_step s r))) = num_occupied_cells s \<and>
   fst (schelling_step s r) \<noteq> Inl AssertionError \<and>
   (\<forall>k. fst (after_moves s r k) \<noteq> Some AssertionError \<and>
        num_empty_cells (snd (after_moves s r k)) = num_empty_cells s \<and>
        num_occupied_cells (snd (after_moves s r k)) = num_occupied_cells s) \<and>
   snd (after_moves s r (length (fst (unhappy_order s r)))) = fst (snd (schelling_step s r))"
proof -
  obtain res s' r' where st: "schelling_step s r = (res, s', r')"
    by (metis prod_cases3)
  note c = schelling_step_char[OF st]
  have e: "num_empty_cells s' = num_empty_cells s" by (rule c(1))
  have o: "num_occupied_cells s' = num_occupied_cells s"
    using cells_partition[of s] cells_partition[of s'] e c(3) by simp
  have a: "res \<noteq> Inl AssertionError" using c(2) by (auto split: if_splits)
  have k: "fst (after_moves s r k) \<noteq> Some AssertionError \<and>
        num_empty_cells (snd (after_moves s r k)) = num_empty_cells s \<and>
        num_occupied_cells (snd (after_moves s r k)) = num_occupied_cells s" for k
    using after_moves_char[of s r k] cells_partition[of s]
      cells_partition[of "snd (after_moves s r k)"] by simp
  show ?thesis using e o a k after_all_moves[of s r] by (simp add: st)
qed

section \<open>Schelling: the survey\<close>

lemma make_locs_3_3:
  "make_locs 3 3 = [(0,0),(0,1),(0,2),(1,0),(1,1),(1,2),(2,0),(2,1),(2,2)]"
  by code_simp

lemma make_locs_2_2: "make_locs 2 2 = [(0,0),(0,1),(1,0),(1,1)]"
  by code_simp

lemma count_as_sum: "int (length (filter c xs)) = sum_list (map (bool_array c) xs)"
  by (induction xs) (simp_all add: bool_array_def)

text \<open>The correlation with the kernel counts the cells of the eight wrapped neighbours
  where the mask is true.\<close>

lemma correlate2d_kernel:
  "correlate2d n (bool_array c) kernel l = int (length (filter c (neighbors8 n l)))"
proof (cases l)
  case (Pair i j)
  have a: "int i + 2 - 1 = int i + 1" "int j + 2 - 1 = int j + 1"
    by simp_all
  show ?thesis
    unfolding count_as_sum Pair correlate2d_def make_locs_3_3 kernel_def neighbors8_def
      neighbor_offsets_def
    by (simp add: a numeral_2_eq_2 add.commute)
qed

lemma num_red_count:
  "num_red s l = int (length (filter (\<lambda>m. sch_array s m = 1) (neighbors8 (sch_n s) l)))"
  by (simp add: num_red_def correlate2d_kernel)

lemma num_blue_count:
  "num_blue s l = int (length (filter (\<lambda>m. sch_array s m = 2) (neighbors8 (sch_n s) l)))"
  by (simp add: num_blue_def correlate2d_kernel)

lemma frac_red_range: "0 \<le> frac_red s l \<and> frac_red s l \<le> 1"
  by (simp add: frac_red_def num_neighbors_def num_red_count num_blue_count)

lemma frac_blue_range: "0 \<le> frac_blue s l \<and> frac_blue s l \<le> 1"
  by (simp add: frac_blue_def num_neighbors_def num_red_count num_blue_count)

lemma frac_same_range: "frac_same s l = Some f \<Longrightarrow> 0 \<le> f \<and> f \<le> 1"
  using frac_red_range[of s l] frac_blue_range[of s l]
  by (auto simp: frac_same_def split: if_splits)

lemma neighbors8_in_grid:
  assumes "l \<in> set (make_locs n n)" "m \<in> set (neighbors8 n l)"
  shows "m \<in> set (make_locs n n)"
proof -
  have "0 < n" using assms(1) by (auto simp: set_make_locs)
  then have "\<And>x. np_mod x n < n"
    by (simp add: np_mod_def nat_less_iff)
  then show ?thesis using assms(2)
    by (cases l) (auto simp: neighbors8_def set_make_locs)
qed

lemma occupied_split:
  "\<forall>m\<in>set xs. a m = 0 \<or> a m = 1 \<or> a m = (2::int) \<Longrightarrow>
   length (filter (\<lambda>m. a m \<noteq> 0) xs) =
   length (filter (\<lambda>m. a m = 1) xs) + length (filter (\<lambda>m. a m = 2) xs)"
  by (induction xs) auto

lemma frac_same_refines:
  assumes "valid_grid s" "l \<in> set (make_locs (sch_n s) (sch_n s))"
  shows "frac_same s l = spec_frac_same s l"
proof -
  let ?nb = "neighbors8 (sch_n s) l"
  have v: "\<forall>m\<in>set ?nb. sch_array s m = 0 \<or> sch_array s m = 1 \<or> sch_array s m = 2"
    using assms neighbors8_in_grid[OF assms(2)] by (auto simp: valid_grid_def)
  have vl: "sch_array s l = 0 \<or> sch_array s l = 1 \<or> sch_array s l = 2"
    using assms by (auto simp: valid_grid_def)
  have occ: "length (filter (\<lambda>m. sch_array s m \<noteq> 0) ?nb) =
             length (filter (\<lambda>m. sch_array s m = 1) ?nb) +
             length (filter (\<lambda>m. sch_array s m = 2) ?nb)"
    using v by (rule occupied_split)
  have nn: "num_neighbors s l = int (length (filter (\<lambda>m. sch_array s m \<noteq> 0) ?nb))"
    by (simp add: num_neighbors_def num_red_count num_blue_count occ)
  show ?thesis
    using vl
    by (auto simp: frac_same_def spec_frac_same_def empty_mask_def frac_red_def frac_blue_def nn
          num_red_count num_blue_count Let_def)
qed

lemma schelling_init_valid: "valid_grid (fst (schelling_init n p r))"
  by (simp add: valid_grid_def schelling_init_def choice3_def split: prod.splits)

text \<open>
  \<^bold>\<open>C3.\<close> On a grid whose cells hold 0, 1 or 2 (as every grid built by the constructor does),
  and for a cell of the grid, \<^verbatim>\<open>count_neighbors\<close> returns the mask of empty cells and a
  \<open>frac_same\<close> that is: NaN on an empty cell; on an occupied cell, the number of its eight
  wrapped neighbours of the cell's own type divided by the number of occupied ones; and exactly
  0 when none of the eight is occupied.
\<close>

theorem count_neighbors_survey:
  assumes "valid_grid s" and "l \<in> set (make_locs (sch_n s) (sch_n s))"
  shows "fst (count_neighbors s) l = (sch_array s l = 0) \<and>
         snd (snd (snd (count_neighbors s))) l = spec_frac_same s l \<and>
         (sch_array s l = 0 \<longrightarrow> snd (snd (snd (count_neighbors s))) l = None) \<and>
         (sch_array s l \<noteq> 0 \<and> filter (\<lambda>m. sch_array s m \<noteq> 0) (neighbors8 (sch_n s) l) = [] \<longrightarrow>
            snd (snd (snd (count_neighbors s))) l = Some 0) \<and>
         (sch_array s l \<noteq> 0 \<and> filter (\<lambda>m. sch_array s m \<noteq> 0) (neighbors8 (sch_n s) l) \<noteq> [] \<longrightarrow>
            snd (snd (snd (count_neighbors s))) l =
              Some (real (length (filter (\<lambda>m. sch_array s m = sch_array s l) (neighbors8 (sch_n s) l)))
                    / real (length (filter (\<lambda>m. sch_array s m \<noteq> 0) (neighbors8 (sch_n s) l)))))"
proof -
  have f: "snd (snd (snd (count_neighbors s))) l = spec_frac_same s l"
    using frac_same_refines[OF assms] by (simp add: count_neighbors_def)
  have e: "fst (count_neighbors s) l = (sch_array s l = 0)"
    by (simp add: count_neighbors_def empty_mask_def)
  show ?thesis
    unfolding f e by (simp add: spec_frac_same_def Let_def)
qed

lemma np_mod_2 [simp]: "np_mod (-1) 2 = 1" "np_mod 0 2 = 0" "np_mod 1 2 = 1" "np_mod 2 2 = 0"
  by (simp_all add: np_mod_def)

lemma np_mod_3 [simp]:
  "np_mod (-1) 3 = 2" "np_mod 0 3 = 0" "np_mod 1 3 = 1" "np_mod 2 3 = 2" "np_mod 3 3 = 0"
  by (simp_all add: np_mod_def)
lemma grid3_frac: "spec_frac_same grid3 (1, 0) = Some (2 / 5)"
proof -
  have n: "sch_n grid3 = 3" by (simp add: grid3_def)
  have nb: "neighbors8 3 (Suc 0, 0) = [(0,2),(0,0),(0,1),(1,2),(1,1),(2,2),(2,0),(2,1)]"
    by (simp add: neighbors8_def neighbor_offsets_def)
  have a: "sch_array grid3 = (\<lambda>(i, j). int ((i + 2 * j) mod 3))" by (simp add: grid3_def)
  show ?thesis
    by (simp add: spec_frac_same_def n nb Let_def a)
qed

lemma grid3_valid: "valid_grid grid3"
  by (simp add: valid_grid_def grid3_def make_locs_3_3)

theorem count_neighbors_survey_witness:
  "valid_grid grid3 \<and> (1, 0) \<in> set (make_locs (sch_n grid3) (sch_n grid3)) \<and>
   sch_array grid3 (1, 0) = 1 \<and>
   snd (snd (snd (count_neighbors grid3))) (1, 0) = Some (2 / 5) \<and>
   snd (snd (snd (count_neighbors grid3))) (1, 1) = None"
proof -
  have n: "sch_n grid3 = 3" by (simp add: grid3_def)
  have l: "(1, 0) \<in> set (make_locs (sch_n grid3) (sch_n grid3))"
          "(1, 1) \<in> set (make_locs (sch_n grid3) (sch_n grid3))"
    by (simp_all add: n make_locs_3_3)
  have s2: "spec_frac_same grid3 (1, 1) = None"
    by (simp add: spec_frac_same_def grid3_def)
  have a: "sch_array grid3 (1, 0) = 1" by (simp add: grid3_def)
  have c1: "snd (snd (snd (count_neighbors grid3))) (1, 0) = Some (2 / 5)"
    using count_neighbors_survey[OF grid3_valid l(1)] by (simp only: grid3_frac)
  have c2: "snd (snd (snd (count_neighbors grid3))) (1, 1) = None"
    using count_neighbors_survey[OF grid3_valid l(2)] by (simp only: s2)
  show ?thesis
    using grid3_valid l(1) a c1 c2 by blast
qed

section \<open>Schelling: what step returns\<close>

lemma set_present: "set (present xs) = {v. Some v \<in> set xs}"
  by (induction xs) (auto simp: present_def split: option.splits)

lemma sum_list_bounds:
  fixes vs :: "real list"
  assumes "\<forall>v\<in>set vs. 0 \<le> v \<and> v \<le> 1"
  shows "0 \<le> sum_list vs \<and> sum_list vs \<le> real (length vs)"
  using assms by (induction vs) auto

lemma nanmean_range:
  assumes "\<forall>v. Some v \<in> set xs \<longrightarrow> 0 \<le> v \<and> v \<le> 1" "nanmean xs = Some m"
  shows "0 \<le> m \<and> m \<le> 1"
proof -
  let ?vs = "present xs"
  have ne: "?vs \<noteq> []" and m: "m = sum_list ?vs / real (length ?vs)"
    using assms(2) by (auto simp: nanmean_def present_def Let_def split: if_splits)
  have b: "0 \<le> sum_list ?vs \<and> sum_list ?vs \<le> real (length ?vs)"
    by (rule sum_list_bounds) (use assms(1) in \<open>simp add: set_present\<close>)
  have "0 < real (length ?vs)" using ne by simp
  then show ?thesis using b unfolding m by (simp add: divide_le_eq_1)
qed

lemma segregation_range: "segregation s = Some m \<Longrightarrow> 0 \<le> m \<and> m \<le> 1"
  unfolding segregation_def count_neighbors_def
  by (rule nanmean_range[of "map (frac_same s) (make_locs (sch_n s) (sch_n s))"])
     (auto dest: frac_same_range[OF sym])

text \<open>The entries of \<open>frac_same\<close> that are not NaN are those of the occupied cells, so
  \<^verbatim>\<open>np.nanmean\<close> is the mean over the occupied cells.\<close>

lemma present_frac_same:
  "present (map (frac_same s) xs) =
   map (\<lambda>l. case frac_same s l of None \<Rightarrow> 0 | Some f \<Rightarrow> f) (filter (\<lambda>l. sch_array s l \<noteq> 0) xs)"
  by (induction xs) (auto simp: present_def frac_same_def empty_mask_def)

lemma segregation_is_mean: "segregation s = mean_over_occupied s"
proof -
  have "nanmean xs = (if present xs = [] then None
                      else Some (sum_list (present xs) / real (length (present xs))))" for xs
    by (simp add: nanmean_def present_def Let_def)
  then show ?thesis
    by (simp add: segregation_def count_neighbors_def mean_over_occupied_def present_frac_same
          locs_where_def Let_def)
qed

lemma segregation_defined:
  "(\<exists>m. segregation s = Some m) = (0 < num_occupied_cells s)"
  by (auto simp: segregation_is_mean mean_over_occupied_def num_occupied_cells_def Let_def)

text \<open>
  \<^bold>\<open>C7 (amended).\<close> On a grid that has an empty cell or no unhappy cell, \<^verbatim>\<open>step\<close>
  returns the mean of \<open>frac_same\<close> over the occupied cells of the grid as it was before
  the moves of the tick; with at least one occupied cell that value is a number in \<open>[0, 1]\<close>.
\<close>

theorem schelling_step_returns_initial_mean:
  assumes "0 < num_empty_cells s \<or> locs_where (sch_n s) (unhappy s) = []"
  shows "fst (schelling_step s r) = Inr (mean_over_occupied s) \<and>
         mean_over_occupied s = segregation s \<and>
         (0 < num_occupied_cells s \<longrightarrow>
            (\<exists>m. mean_over_occupied s = Some m \<and> 0 \<le> m \<and> m \<le> 1))"
proof -
  obtain res s' r' where st: "schelling_step s r = (res, s', r')"
    by (metis prod_cases3)
  have "res = Inr (segregation s)"
    using schelling_step_char(2)[OF st] assms by auto
  then have a: "fst (schelling_step s r) = Inr (mean_over_occupied s)"
    by (simp add: st segregation_is_mean)
  have b: "\<exists>m. mean_over_occupied s = Some m \<and> 0 \<le> m \<and> m \<le> 1" if "0 < num_occupied_cells s"
    using that segregation_defined[of s] segregation_range[of s]
    by (auto simp: segregation_is_mean)
  show ?thesis using a b by (simp add: segregation_is_mean)
qed

lemma small_grid_n: "sch_n small_grid = 2"
  by (simp add: small_grid_def)

lemma small_grid_counts: "num_empty_cells small_grid = 1" "num_occupied_cells small_grid = 3"
  by (simp_all add: num_empty_cells_def num_occupied_cells_def locs_where_def small_grid_n
        make_locs_2_2) (simp_all add: small_grid_def)

theorem schelling_step_returns_initial_mean_witness:
  "(0 < num_empty_cells small_grid \<or> locs_where (sch_n small_grid) (unhappy small_grid) = []) \<and>
   0 < num_occupied_cells small_grid \<and>
   fst (schelling_step small_grid rng0) = Inr (mean_over_occupied small_grid) \<and>
   (\<exists>m. mean_over_occupied small_grid = Some m \<and> 0 \<le> m \<and> m \<le> 1)"
proof -
  have h: "0 < num_empty_cells small_grid \<or> locs_where (sch_n small_grid) (unhappy small_grid) = []"
    by (simp add: small_grid_counts)
  have o: "0 < num_occupied_cells small_grid" by (simp add: small_grid_counts)
  show ?thesis
    using schelling_step_returns_initial_mean[OF h, of rng0] h o by blast
qed

text \<open>The full checkerboard: every cell has four neighbours of its own type out of eight,
  below the threshold 3/5, and there is no empty cell to move to.\<close>

lemma checkerboard_n: "sch_n checkerboard = 2"
  by (simp add: checkerboard_def)

lemma checkerboard_frac:
  "l \<in> set (make_locs 2 2) \<Longrightarrow> frac_same checkerboard l = Some (1 / 2)"
  by (auto simp: make_locs_2_2 frac_same_def empty_mask_def checkerboard_def frac_red_def
        frac_blue_def num_neighbors_def num_red_count num_blue_count neighbors8_def
        neighbor_offsets_def)

lemma checkerboard_unhappy:
  "locs_where (sch_n checkerboard) (unhappy checkerboard) = make_locs 2 2"
proof -
  have "\<forall>l\<in>set (make_locs 2 2). unhappy checkerboard l"
    by (simp add: unhappy_def checkerboard_frac) (simp add: checkerboard_def)
  then show ?thesis by (simp add: locs_where_def checkerboard_n)
qed

lemma checkerboard_counts:
  "num_empty_cells checkerboard = 0" "num_occupied_cells checkerboard = 4"
  by (simp_all add: num_empty_cells_def num_occupied_cells_def locs_where_def make_locs_2_2
        checkerboard_def)

lemma checkerboard_raises: "fst (schelling_step checkerboard rng0) = Inl ValueError"
  using schelling_step_char(2)[of checkerboard rng0]
  by (simp add: checkerboard_unhappy checkerboard_counts make_locs_2_2 prod_eq_iff)

text \<open>The claim as first worded (for every grid) fails on the full checkerboard: it has
  occupied cells, yet \<^verbatim>\<open>step\<close> raises and returns no mean.\<close>

theorem schelling_step_full_grid_counterexample:
  "0 < num_occupied_cells checkerboard \<and>
   fst (schelling_step checkerboard rng0) \<noteq> Inr (mean_over_occupied checkerboard)"
  by (simp add: checkerboard_raises checkerboard_counts)

text \<open>
  \<^bold>\<open>C10.\<close> \<^verbatim>\<open>Schelling.step\<close> returns exactly when the grid has an empty cell or no
  unhappy cell. When an occupied cell is unhappy (its \<open>frac_same\<close> is strictly below
  \<open>p\<close>) and no cell is empty, the destination is drawn from an empty range, the call
  raises \<^verbatim>\<open>ValueError\<close> and the grid is left as it was.
\<close>

theorem schelling_step_defined_iff:
  "((\<exists>v. fst (schelling_step s r) = Inr v) =
      (0 < num_empty_cells s \<or> locs_where (sch_n s) (unhappy s) = [])) \<and>
   ((\<exists>l \<in> set (make_locs (sch_n s) (sch_n s)).
        sch_array s l \<noteq> 0 \<and> (\<exists>f. frac_same s l = Some f \<and> f < sch_p s)) \<and>
    num_empty_cells s = 0 \<longrightarrow>
      fst (schelling_step s r) = Inl ValueError \<and>
      fst (snd (schelling_step s r)) = s \<and>
      randint_below (num_empty_cells s) (snd (unhappy_order s r)) = Inl ValueError)"
proof -
  obtain res s' r' where st: "schelling_step s r = (res, s', r')"
    by (metis prod_cases3)
  note c = schelling_step_char[OF st]
  have u: "(locs_where (sch_n s) (unhappy s) \<noteq> []) =
           (\<exists>l \<in> set (make_locs (sch_n s) (sch_n s)).
              sch_array s l \<noteq> 0 \<and> (\<exists>f. frac_same s l = Some f \<and> f < sch_p s))"
    by (simp add: locs_where_def filter_empty_conv unhappy_iff)
  have a: "(\<exists>v. res = Inr v) = (0 < num_empty_cells s \<or> locs_where (sch_n s) (unhappy s) = [])"
    using c(2) by auto
  have b: "res = Inl ValueError \<and> s' = s"
    if "locs_where (sch_n s) (unhappy s) \<noteq> []" "num_empty_cells s = 0"
    using c(2) c(5) that by simp
  show ?thesis
    using a b u by (auto simp: st randint_below_cases)
qed

theorem schelling_step_defined_iff_witness:
  "(\<exists>l \<in> set (make_locs (sch_n checkerboard) (sch_n checkerboard)).
        sch_array checkerboard l \<noteq> 0 \<and>
        (\<exists>f. frac_same checkerboard l = Some f \<and> f < sch_p checkerboard)) \<and>
   num_empty_cells checkerboard = 0 \<and>
   fst (schelling_step checkerboard rng0) = Inl ValueError \<and>
   fst (snd (schelling_step checkerboard rng0)) = checkerboard \<and>
   \<not> (\<exists>v. fst (schelling_step checkerboard rng0) = Inr v)"
proof -
  have h: "\<exists>l \<in> set (make_locs (sch_n checkerboard) (sch_n checkerboard)).
        sch_array checkerboard l \<noteq> 0 \<and>
        (\<exists>f. frac_same checkerboard l = Some f \<and> f < sch_p checkerboard)"
  proof -
    have m: "(0, 0) \<in> set (make_locs (sch_n checkerboard) (sch_n checkerboard))"
      by (simp add: checkerboard_n make_locs_2_2)
    have f: "frac_same checkerboard (0, 0) = Some (1 / 2)"
      by (simp add: checkerboard_frac make_locs_2_2)
    have a: "sch_array checkerboard (0, 0) \<noteq> 0" "(1 / 2 :: real) < sch_p checkerboard"
      by (simp_all add: checkerboard_def)
    show ?thesis using m f a by blast
  qed
  show ?thesis
    using schelling_step_defined_iff[of checkerboard rng0] h checkerboard_counts(1)
    by simp
qed

section \<open>Sugarscape: agents, moves and the occupancy index\<close>


lemma new_agent_loc: "new_agent l p r = Inr (ag, r') \<Longrightarrow> loc ag = l \<and> age ag = 0"
  by (auto simp: new_agent_def split: sum.splits prod.splits)

lemma new_agents_facts:
  "new_agents ls p h nr r = Inr (refs, h', nr', r') \<Longrightarrow>
     refs = [nr..<nr + length ls] \<and> nr' = nr + length ls \<and>
     map (\<lambda>a. loc (h' a)) refs = ls \<and> (\<forall>a<nr. h' a = h a)"
proof (induction ls arbitrary: h nr r refs h' nr' r')
  case Nil
  then show ?case by simp
next
  case (Cons l ls)
  from Cons.prems obtain ag r1 refs1 where
    a: "new_agent l p r = Inr (ag, r1)" and
    b: "new_agents ls p (h(nr := ag)) (Suc nr) r1 = Inr (refs1, h', nr', r')" and
    c: "refs = nr # refs1"
    by (auto split: sum.splits prod.splits)
  note IH = Cons.IH[OF b]
  have hn: "h' nr = ag" using IH by simp
  have u: "[nr..<nr + length (l # ls)] = nr # [Suc nr..<Suc nr + length ls]"
    by (simp add: upt_rec)
  show ?case unfolding u using IH c hn new_agent_loc[OF a]
    by auto
qed

text \<open>\<open>argmax\<close> returns the first index of a maximum.\<close>

lemma argmax_from_spec:
  assumes "best < length ys" "bv = ys ! best" "\<forall>j<length ys. ys ! j \<le> bv" "\<forall>j<best. ys ! j < bv"
  shows "argmax_from xs (length ys) best bv < length (ys @ xs) \<and>
         (\<forall>j<length (ys @ xs). (ys @ xs) ! j \<le> (ys @ xs) ! argmax_from xs (length ys) best bv) \<and>
         (\<forall>j<argmax_from xs (length ys) best bv. (ys @ xs) ! j < (ys @ xs) ! argmax_from xs (length ys) best bv)"
  using assms
proof (induction xs arbitrary: ys best bv)
  case Nil
  then show ?case by simp
next
  case (Cons x xs)
  show ?case
  proof (cases "bv < x")
    case True
    have "argmax_from xs (length (ys @ [x])) (length ys) x < length ((ys @ [x]) @ xs) \<and>
         (\<forall>j<length ((ys @ [x]) @ xs). ((ys @ [x]) @ xs) ! j \<le> ((ys @ [x]) @ xs) ! argmax_from xs (length (ys @ [x])) (length ys) x) \<and>
         (\<forall>j<argmax_from xs (length (ys @ [x])) (length ys) x. ((ys @ [x]) @ xs) ! j < ((ys @ [x]) @ xs) ! argmax_from xs (length (ys @ [x])) (length ys) x)"
    proof (rule Cons.IH)
      show "length ys < length (ys @ [x])" by simp
      show "x = (ys @ [x]) ! length ys" by simp
      show "\<forall>j<length (ys @ [x]). (ys @ [x]) ! j \<le> x"
        using Cons.prems(3) True by (auto simp: nth_append less_Suc_eq)
      show "\<forall>j<length ys. (ys @ [x]) ! j < x"
        using Cons.prems(3) True by (auto simp: nth_append)
    qed
    then show ?thesis using True by simp
  next
    case False
    have "argmax_from xs (length (ys @ [x])) best bv < length ((ys @ [x]) @ xs) \<and>
         (\<forall>j<length ((ys @ [x]) @ xs). ((ys @ [x]) @ xs) ! j \<le> ((ys @ [x]) @ xs) ! argmax_from xs (length (ys @ [x])) best bv) \<and>
         (\<forall>j<argmax_from xs (length (ys @ [x])) best bv. ((ys @ [x]) @ xs) ! j < ((ys @ [x]) @ xs) ! argmax_from xs (length (ys @ [x])) best bv)"
    proof (rule Cons.IH)
      show "best < length (ys @ [x])" using Cons.prems(1) by simp
      show "bv = (ys @ [x]) ! best" using Cons.prems(1,2) by (simp add: nth_append)
      show "\<forall>j<length (ys @ [x]). (ys @ [x]) ! j \<le> bv"
        using Cons.prems(3) False by (auto simp: nth_append less_Suc_eq)
      show "\<forall>j<best. (ys @ [x]) ! j < bv"
        using Cons.prems(1,4) by (auto simp: nth_append)
    qed
    then show ?thesis using False by simp
  qed
qed

lemma argmax_spec:
  assumes "t \<noteq> []"
  shows "argmax t < length t \<and> (\<forall>j<length t. t ! j \<le> t ! argmax t) \<and>
         (\<forall>j<argmax t. t ! j < t ! argmax t)"
proof -
  obtain x xs where t: "t = x # xs" using assms by (cases t) auto
  have "argmax_from xs (length [x]) 0 x < length ([x] @ xs) \<and>
         (\<forall>j<length ([x] @ xs). ([x] @ xs) ! j \<le> ([x] @ xs) ! argmax_from xs (length [x]) 0 x) \<and>
         (\<forall>j<argmax_from xs (length [x]) 0 x. ([x] @ xs) ! j < ([x] @ xs) ! argmax_from xs (length [x]) 0 x)"
    by (rule argmax_from_spec) simp_all
  then show ?thesis by (simp add: t argmax_def)
qed



lemma look_and_move_cases:
  assumes "look_and_move env c v r = Inr (l, r')"
  shows "l = c \<or> (l \<notin> occupied env \<and> in_grid (env_n env) l)"
proof -
  obtain offs r1 where mv: "make_visible_locs v r = Inr (offs, r1)"
    using assms by (auto simp: look_and_move_def split: sum.splits)
  define locs where "locs = map (\<lambda>(di, dj). (np_mod (di + int (fst c)) (env_n env),
                                    np_mod (dj + int (snd c)) (env_n env))) offs"
  define el where "el = filter (\<lambda>l. l \<notin> occupied env) locs"
  have lm: "look_and_move env c v r =
      (if length el = 0 then Inr (c, r1)
       else if \<not> list_all (in_grid (env_n env)) el then Inl IndexError
       else Inr (el ! argmax (map (\<lambda>l. sint (array env l)) el), r1))"
    by (simp only: look_and_move_def mv Let_def locs_def el_def sum.case prod.case)
  show ?thesis
  proof (cases "el = []")
    case True
    then show ?thesis using assms lm by simp
  next
    case False
    then have g: "list_all (in_grid (env_n env)) el" and l: "l = el ! argmax (map (\<lambda>l. sint (array env l)) el)"
      using assms lm by (auto split: if_splits)
    have "argmax (map (\<lambda>l. sint (array env l)) el) < length el"
      using argmax_spec[of "map (\<lambda>l. sint (array env l)) el"] False by simp
    then have m: "l \<in> set el" unfolding l by (rule nth_mem)
    then have "l \<notin> occupied env" by (simp add: el_def)
    moreover have "in_grid (env_n env) l" using g m unfolding list_all_iff by blast
    ultimately show ?thesis by simp
  qed
qed

lemma harvest_cases:
  "harvest env l = Inr (v, env') \<Longrightarrow>
     in_grid (env_n env) l \<and> v = array env l \<and> env' = env\<lparr>array := (array env)(l := 0)\<rparr>"
  by (auto simp: harvest_def split: if_splits)

lemma agent_step_effect:
  assumes "agent_step a env r = Inr (env', r')"
  shows "agents env' = agents env" "occupied env' = occupied env" "next_ref env' = next_ref env"
    "env_params env' = env_params env" "env_n env' = env_n env" "capacity env' = capacity env"
    "agent_count_seq env' = agent_count_seq env"
    "\<forall>b. b \<noteq> a \<longrightarrow> heap env' b = heap env b"
    "loc (heap env' a) = loc (heap env a) \<or> loc (heap env' a) \<notin> occupied env"
    "in_grid (env_n env) (loc (heap env' a))"
    "age (heap env' a) = age (heap env a) + 1"
    "array env' = (array env)(loc (heap env' a) := 0)"
    "sugar (heap env' a) =
       sugar (heap env a) + (real_of_int (sint (array env (loc (heap env' a)))) - metabolism (heap env a))"
    "lifespan (heap env' a) = lifespan (heap env a)"
    "metabolism (heap env' a) = metabolism (heap env a)"
    "vision (heap env' a) = vision (heap env a)"
proof -
  obtain l r1 where lm: "look_and_move env (loc (heap env a)) (vision (heap env a)) r = Inr (l, r1)"
    using assms by (auto simp: agent_step_def split: sum.splits)
  define env1 where "env1 = env\<lparr>heap := (heap env)(a := (heap env a)\<lparr>loc := l\<rparr>)\<rparr>"
  obtain s env2 where hv: "harvest env1 l = Inr (s, env2)"
    using assms by (auto simp: agent_step_def lm Let_def env1_def split: sum.splits)
  note h = harvest_cases[OF hv]
  have e': "env' = env2\<lparr>heap := (heap env2)(a := (heap env2 a)
              \<lparr>sugar := sugar (heap env2 a) + (real_of_int (sint s) - metabolism (heap env2 a)),
               age := age (heap env2 a) + 1\<rparr>)\<rparr>"
    using assms by (simp add: agent_step_def lm Let_def env1_def[symmetric] hv)
  have e2: "env2 = env1\<lparr>array := (array env1)(l := 0)\<rparr>" using h by simp
  show "agents env' = agents env" "occupied env' = occupied env" "next_ref env' = next_ref env"
    "env_params env' = env_params env" "env_n env' = env_n env" "capacity env' = capacity env"
    "agent_count_seq env' = agent_count_seq env"
    by (simp_all add: e' e2 env1_def)
  show "\<forall>b. b \<noteq> a \<longrightarrow> heap env' b = heap env b"
    by (simp add: e' e2 env1_def)
  have la: "loc (heap env' a) = l" by (simp add: e' e2 env1_def)
  show "loc (heap env' a) = loc (heap env a) \<or> loc (heap env' a) \<notin> occupied env"
    using look_and_move_cases[OF lm] la by auto
  show "in_grid (env_n env) (loc (heap env' a))"
    using h la by (simp add: env1_def)
  show "age (heap env' a) = age (heap env a) + 1"
    by (simp add: e' e2 env1_def)
  show "array env' = (array env)(loc (heap env' a) := 0)"
    by (simp add: la) (simp add: e' e2 env1_def)
  show "sugar (heap env' a) =
       sugar (heap env a) + (real_of_int (sint (array env (loc (heap env' a)))) - metabolism (heap env a))"
    using h by (simp add: la) (simp add: e' e2 env1_def)
  show "lifespan (heap env' a) = lifespan (heap env a)"
    "metabolism (heap env' a) = metabolism (heap env a)"
    "vision (heap env' a) = vision (heap env a)"
    by (simp_all add: e' e2 env1_def)
qed

lemma random_loc_free:
  assumes "random_loc env r = Some y"
  shows "\<forall>l r'. y = Inr (l, r') \<longrightarrow> l \<notin> occupied env \<and> in_grid (env_n env) l"
proof (rule random_loc.raw_induct[where P = "\<lambda>env r y. \<forall>l r'. y = Inr (l, r') \<longrightarrow>
           l \<notin> occupied env \<and> in_grid (env_n env) l", OF _ assms])
  fix f :: "sugarscape \<Rightarrow> rng \<Rightarrow> (error + (loc \<times> rng)) option" and env r y
  assume IH: "\<And>env r y. f env r = Some y \<Longrightarrow>
                \<forall>l r'. y = Inr (l, r') \<longrightarrow> l \<notin> occupied env \<and> in_grid (env_n env) l"
    and st: "(case randint_below (env_n env) r of Inl e \<Rightarrow> Some (Inl e)
      | Inr (i, r1) \<Rightarrow>
          case randint_below (env_n env) r1 of Inl e \<Rightarrow> Some (Inl e)
          | Inr (j, r2) \<Rightarrow>
              if (i, j) \<notin> occupied env then Some (Inr ((i, j), r2))
              else f env r2) = Some y"
  show "\<forall>l r'. y = Inr (l, r') \<longrightarrow> l \<notin> occupied env \<and> in_grid (env_n env) l"
  proof (cases "env_n env = 0")
    case True
    then show ?thesis using st by (auto simp: randint_below_cases)
  next
    case False
    then show ?thesis using st IH
      by (auto simp: randint_below_cases in_grid_def split: if_splits)
  qed
qed



lemma add_agent_cases:
  assumes "add_agent env r = Some (Inr (env', r'))"
  obtains l r1 ag where "random_loc env r = Some (Inr (l, r1))"
    "new_agent l (env_params env) r1 = Inr (ag, r')"
    "l \<notin> occupied env" "in_grid (env_n env) l" "loc ag = l" "age ag = 0"
    "env' = env\<lparr>agents := agents env @ [next_ref env],
                 heap := (heap env)(next_ref env := ag),
                 next_ref := Suc (next_ref env),
                 occupied := insert (loc ag) (occupied env)\<rparr>"
proof -
  obtain l r1 where rl: "random_loc env r = Some (Inr (l, r1))"
    using assms by (auto simp: add_agent_def split: option.splits sum.splits)
  obtain ag where na: "new_agent l (env_params env) r1 = Inr (ag, r')"
    and e: "env' = env\<lparr>agents := agents env @ [next_ref env],
                 heap := (heap env)(next_ref env := ag),
                 next_ref := Suc (next_ref env),
                 occupied := insert (loc ag) (occupied env)\<rparr>"
    using assms by (auto simp: add_agent_def rl split: sum.splits)
  show ?thesis
    using that[OF rl na _ _ _ _ e] random_loc_free[OF rl] new_agent_loc[OF na] by simp
qed

lemma occ_inv_add_agent:
  assumes "occ_inv env" "add_agent env r = Some (Inr (env', r'))"
  shows "occ_inv env'"
proof -
  from assms(2) obtain l r1 ag where f: "l \<notin> occupied env" "loc ag = l"
    and e: "env' = env\<lparr>agents := agents env @ [next_ref env],
                 heap := (heap env)(next_ref env := ag),
                 next_ref := Suc (next_ref env),
                 occupied := insert (loc ag) (occupied env)\<rparr>"
    by (rule add_agent_cases)
  have nr: "next_ref env \<notin> set (agents env)"
    using assms(1) by (auto simp: occ_inv_def list_all_iff)
  have lo: "locs_of env' = locs_of env @ [l]"
    using nr f(2) by (simp add: e locs_of_def)
  have a: "agents env' = agents env @ [next_ref env]" "next_ref env' = Suc (next_ref env)"
    "occupied env' = insert l (occupied env)"
    using f(2) by (simp_all add: e)
  have "list_all (\<lambda>a. a < next_ref env') (agents env')"
    using assms(1) unfolding a occ_inv_def list_all_iff by (auto simp: less_Suc_eq)
  then show ?thesis
    using assms(1) nr f(1) unfolding occ_inv_def lo a by auto
qed

lemma visit_cases:
  assumes "visit a (env, r) = Some (Inr (env', r'))"
  obtains env2 r2 where
    "loc (heap env a) \<in> occupied env"
    "agent_step a (env\<lparr>occupied := occupied env - {loc (heap env a)}\<rparr>) r = Inr (env2, r2)"
    "(\<not> (is_starving (heap env2 a) \<or> is_old (heap env2 a)) \<and> r' = r2 \<and>
        env' = env2\<lparr>occupied := insert (loc (heap env2 a)) (occupied env2)\<rparr>) \<or>
     ((is_starving (heap env2 a) \<or> is_old (heap env2 a)) \<and> a \<in> set (agents env2) \<and>
        ((\<not> param_get (replace (env_params env2)) False \<and> r' = r2 \<and>
            env' = env2\<lparr>agents := remove1 a (agents env2)\<rparr>) \<or>
         (param_get (replace (env_params env2)) False \<and>
            add_agent (env2\<lparr>agents := remove1 a (agents env2)\<rparr>) r2 = Some (Inr (env', r')))))"
proof -
  have k: "loc (heap env a) \<in> occupied env"
    using assms by (auto simp: visit_def split: if_splits)
  obtain env2 r2 where
    as: "agent_step a (env\<lparr>occupied := occupied env - {loc (heap env a)}\<rparr>) r = Inr (env2, r2)"
    using assms k by (auto simp: visit_def Let_def split: sum.splits)
  show ?thesis
    using assms k
    by (intro that[OF k as]) (auto simp: visit_def Let_def as split: if_splits)
qed



lemma distinct_map_change:
  assumes "distinct xs" "distinct (map f xs)" "a \<in> set xs"
    and "\<forall>b. b \<noteq> a \<longrightarrow> g b = f b" "g a \<notin> set (map f xs) - {f a}"
  shows "distinct (map g xs)" "set (map g xs) = insert (g a) (set (map f xs) - {f a})"
proof -
  have inj: "inj_on f (set xs)" using assms(1,2) by (simp add: distinct_map)
  have im: "f ` (set xs - {a}) = f ` set xs - {f a}"
    using inj assms(3) by (auto simp: inj_on_def)
  have g: "g ` (set xs - {a}) = f ` (set xs - {a})"
    using assms(4) by (auto simp: image_iff)
  have "inj_on g (set xs)"
  proof (rule inj_onI)
    fix x y assume x: "x \<in> set xs" and y: "y \<in> set xs" and e: "g x = g y"
    show "x = y"
    proof (cases "x = a \<or> y = a")
      case True
      then show ?thesis using x y e assms(4,5) im
        by (metis DiffI image_eqI image_set singletonD)
    next
      case False
      then show ?thesis using x y e assms(4) inj by (auto simp: inj_on_def)
    qed
  qed
  then show "distinct (map g xs)" using assms(1) by (simp add: distinct_map)
  have "set (map g xs) = insert (g a) (g ` (set xs - {a}))"
    using assms(3) by auto
  then show "set (map g xs) = insert (g a) (set (map f xs) - {f a})"
    using g im by simp
qed

lemma distinct_map_remove1:
  assumes "distinct xs" "distinct (map f xs)" "a \<in> set xs" "\<forall>b. b \<noteq> a \<longrightarrow> g b = f b"
  shows "distinct (map g (remove1 a xs))" "set (map g (remove1 a xs)) = set (map f xs) - {f a}"
proof -
  have inj: "inj_on f (set xs)" using assms(1,2) by (simp add: distinct_map)
  have e: "map g (remove1 a xs) = map f (remove1 a xs)"
    using assms(1,4) by (auto simp: map_eq_conv)
  have "inj_on f (set (remove1 a xs))"
    using inj assms(1) by (auto simp: inj_on_def)
  then show "distinct (map g (remove1 a xs))"
    unfolding e using assms(1) by (simp add: distinct_map)
  show "set (map g (remove1 a xs)) = set (map f xs) - {f a}"
    unfolding e using inj assms(1,3) by (auto simp: inj_on_def)
qed

lemma visit_effect:
  assumes inv: "occ_inv env" and a: "a \<in> set (agents env)"
    and v: "visit a (env, r) = Some (Inr (env', r'))"
  shows "occ_inv env'"
    and "\<forall>b. b \<noteq> a \<longrightarrow> b < next_ref env \<longrightarrow> heap env' b = heap env b"
    and "age (heap env' a) = age (heap env a) + 1"
    and "(a \<in> set (agents env')) = (\<not> (is_starving (heap env' a) \<or> is_old (heap env' a)))"
    and "\<forall>b. b \<noteq> a \<longrightarrow> b \<in> set (agents env) \<longrightarrow> b \<in> set (agents env')"
    and "\<forall>b \<in> set (agents env'). b \<in> set (agents env) \<or> next_ref env \<le> b"
    and "next_ref env \<le> next_ref env'"
    and "param_get (replace (env_params env)) False \<longrightarrow> length (agents env') = length (agents env)"
    and "env_params env' = env_params env" and "env_n env' = env_n env"
    and "capacity env' = capacity env"
    and "\<exists>h. sugar (heap env' a) = sugar (heap env a) + (h - metabolism (heap env a))"
    and "lifespan (heap env' a) = lifespan (heap env a)"
proof -
  define l0 where "l0 = loc (heap env a)"
  define env1 where "env1 = env\<lparr>occupied := occupied env - {l0}\<rparr>"
  from v obtain env2 r2 where k: "l0 \<in> occupied env"
    and as: "agent_step a env1 r = Inr (env2, r2)"
    and cs: "(\<not> (is_starving (heap env2 a) \<or> is_old (heap env2 a)) \<and> r' = r2 \<and>
        env' = env2\<lparr>occupied := insert (loc (heap env2 a)) (occupied env2)\<rparr>) \<or>
     ((is_starving (heap env2 a) \<or> is_old (heap env2 a)) \<and> a \<in> set (agents env2) \<and>
        ((\<not> param_get (replace (env_params env2)) False \<and> r' = r2 \<and>
            env' = env2\<lparr>agents := remove1 a (agents env2)\<rparr>) \<or>
         (param_get (replace (env_params env2)) False \<and>
            add_agent (env2\<lparr>agents := remove1 a (agents env2)\<rparr>) r2 = Some (Inr (env', r')))))"
    unfolding l0_def env1_def by (rule visit_cases)
  note e = agent_step_effect[OF as]
  have ag2: "agents env2 = agents env" and oc2: "occupied env2 = occupied env - {l0}"
    and nr2: "next_ref env2 = next_ref env" and pr2: "env_params env2 = env_params env"
    and n2: "env_n env2 = env_n env" and cp2: "capacity env2 = capacity env"
    using e(1-6) by (simp_all add: env1_def)
  have hp2: "\<forall>b. b \<noteq> a \<longrightarrow> heap env2 b = heap env b"
    using e(8) by (simp add: env1_def)
  have age2: "age (heap env2 a) = age (heap env a) + 1"
    using e(11) by (simp add: env1_def)
  have sg2: "\<exists>h. sugar (heap env2 a) = sugar (heap env a) + (h - metabolism (heap env a))"
    using e(13) by (auto simp: env1_def)
  have ls2: "lifespan (heap env2 a) = lifespan (heap env a)"
    using e(14) by (simp add: env1_def)
  define l2 where "l2 = loc (heap env2 a)"
  have l2: "l2 \<notin> occupied env - {l0}"
    using e(9) by (auto simp: env1_def l2_def l0_def)
  have d: "distinct (agents env)" and dl: "distinct (map (\<lambda>b. loc (heap env b)) (agents env))"
    and oc: "occupied env = set (map (\<lambda>b. loc (heap env b)) (agents env))"
    and bd: "\<forall>b\<in>set (agents env). b < next_ref env"
    using inv by (simp_all add: occ_inv_def locs_of_def list_all_iff)
  have g: "\<forall>b. b \<noteq> a \<longrightarrow> loc (heap env2 b) = loc (heap env b)"
    using hp2 by simp
  have ga: "loc (heap env2 a) \<notin> set (map (\<lambda>b. loc (heap env b)) (agents env)) - {loc (heap env a)}"
    using l2 oc by (simp add: l2_def l0_def)
  note alive = distinct_map_change[OF d dl a g ga]
  note dead = distinct_map_remove1[OF d dl a g]
  define env3 where "env3 = env2\<lparr>agents := remove1 a (agents env2)\<rparr>"
  have inv3: "occ_inv env3"
    using dead d bd by (auto simp: occ_inv_def locs_of_def env3_def ag2 oc2 oc l0_def nr2 list_all_iff)
  have a_lt: "a < next_ref env" using a bd by simp
  consider
    (live) "\<not> (is_starving (heap env2 a) \<or> is_old (heap env2 a))" "r' = r2"
        "env' = env2\<lparr>occupied := insert (loc (heap env2 a)) (occupied env2)\<rparr>"
    | (gone) "is_starving (heap env2 a) \<or> is_old (heap env2 a)"
        "\<not> param_get (replace (env_params env)) False" "env' = env3"
    | (repl) "is_starving (heap env2 a) \<or> is_old (heap env2 a)"
        "param_get (replace (env_params env)) False"
        "add_agent env3 r2 = Some (Inr (env', r'))"
    using cs by (auto simp: env3_def pr2)
  then have "occ_inv env' \<and>
    (\<forall>b. b \<noteq> a \<longrightarrow> b < next_ref env \<longrightarrow> heap env' b = heap env b) \<and>
    age (heap env' a) = age (heap env a) + 1 \<and>
    ((a \<in> set (agents env')) = (\<not> (is_starving (heap env' a) \<or> is_old (heap env' a)))) \<and>
    (\<forall>b. b \<noteq> a \<longrightarrow> b \<in> set (agents env) \<longrightarrow> b \<in> set (agents env')) \<and>
    (\<forall>b \<in> set (agents env'). b \<in> set (agents env) \<or> next_ref env \<le> b) \<and>
    next_ref env \<le> next_ref env' \<and>
    (param_get (replace (env_params env)) False \<longrightarrow> length (agents env') = length (agents env)) \<and>
    env_params env' = env_params env \<and> env_n env' = env_n env \<and> capacity env' = capacity env \<and>
    (\<exists>h. sugar (heap env' a) = sugar (heap env a) + (h - metabolism (heap env a))) \<and>
    lifespan (heap env' a) = lifespan (heap env a)"
  proof cases
    case live
    have "occ_inv env'"
      using alive d bd by (auto simp: occ_inv_def locs_of_def live(3) ag2 oc2 oc l0_def nr2 list_all_iff)
    then show ?thesis
      using live(1) a hp2 age2 sg2 ls2 by (simp add: live(3) ag2 nr2 pr2 n2 cp2)
  next
    case gone
    show ?thesis
      using inv3 gone(1,2) d hp2 age2 sg2 ls2 by (simp add: gone(3) env3_def ag2 nr2 pr2 n2 cp2)
  next
    case repl
    from repl(3) obtain l r1 ag where
      e': "env' = env3\<lparr>agents := agents env3 @ [next_ref env3],
                 heap := (heap env3)(next_ref env3 := ag),
                 next_ref := Suc (next_ref env3),
                 occupied := insert (loc ag) (occupied env3)\<rparr>"
      by (rule add_agent_cases)
    have len: "length (remove1 a (agents env)) = length (agents env) - 1"
      using a by (simp add: length_remove1)
    have pos: "0 < length (agents env)" using a by (cases "agents env") auto
    show ?thesis
      using occ_inv_add_agent[OF inv3 repl(3)] repl(1) d hp2 age2 sg2 ls2 a_lt len pos
      by (simp add: e' env3_def ag2 nr2 pr2 n2 cp2)
  qed
  then show "occ_inv env'"
    and "\<forall>b. b \<noteq> a \<longrightarrow> b < next_ref env \<longrightarrow> heap env' b = heap env b"
    and "age (heap env' a) = age (heap env a) + 1"
    and "(a \<in> set (agents env')) = (\<not> (is_starving (heap env' a) \<or> is_old (heap env' a)))"
    and "\<forall>b. b \<noteq> a \<longrightarrow> b \<in> set (agents env) \<longrightarrow> b \<in> set (agents env')"
    and "\<forall>b \<in> set (agents env'). b \<in> set (agents env) \<or> next_ref env \<le> b"
    and "next_ref env \<le> next_ref env'"
    and "param_get (replace (env_params env)) False \<longrightarrow> length (agents env') = length (agents env)"
    and "env_params env' = env_params env" and "env_n env' = env_n env"
    and "capacity env' = capacity env"
    and "\<exists>h. sugar (heap env' a) = sugar (heap env a) + (h - metabolism (heap env a))"
    and "lifespan (heap env' a) = lifespan (heap env a)"
    by blast+
qed




lemma visit_all_effect:
  assumes "occ_inv env" "distinct rest" "set rest \<subseteq> set (agents env)"
    and "visit_all rest (env, r) = Some (Inr (env', r'))"
  shows "occ_inv env' \<and>
    (\<forall>b. b \<notin> set rest \<longrightarrow> b < next_ref env \<longrightarrow> heap env' b = heap env b) \<and>
    (\<forall>a \<in> set rest. age (heap env' a) = age (heap env a) + 1 \<and>
        (a \<in> set (agents env')) = (\<not> (is_starving (heap env' a) \<or> is_old (heap env' a))) \<and>
        (\<exists>h. sugar (heap env' a) = sugar (heap env a) + (h - metabolism (heap env a))) \<and>
        lifespan (heap env' a) = lifespan (heap env a)) \<and>
    (\<forall>b. b \<notin> set rest \<longrightarrow> b \<in> set (agents env) \<longrightarrow> b \<in> set (agents env')) \<and>
    (\<forall>b \<in> set (agents env'). b \<in> set (agents env) \<or> next_ref env \<le> b) \<and>
    next_ref env \<le> next_ref env' \<and>
    (param_get (replace (env_params env)) False \<longrightarrow> length (agents env') = length (agents env)) \<and>
    env_params env' = env_params env \<and> env_n env' = env_n env \<and> capacity env' = capacity env"
  using assms
proof (induction rest arbitrary: env r)
  case Nil
  then show ?case by simp
next
  case (Cons a rest)
  from Cons.prems(4) obtain env1 r1 where
    v: "visit a (env, r) = Some (Inr (env1, r1))" and
    va: "visit_all rest (env1, r1) = Some (Inr (env', r'))"
    by (auto split: option.splits sum.splits)
  have a: "a \<in> set (agents env)" and an: "a \<notin> set rest" and dr: "distinct rest"
    using Cons.prems(2,3) by auto
  note e = visit_effect[OF Cons.prems(1) a v]
  have sub: "set rest \<subseteq> set (agents env1)"
    using Cons.prems(3) an e(5) by auto
  note IH = Cons.IH[OF e(1) dr sub va]
  have bd: "\<forall>b\<in>set (agents env). b < next_ref env"
    using Cons.prems(1) by (simp add: occ_inv_def list_all_iff)
  have a_lt: "a < next_ref env" using a bd by simp
  have ha: "heap env' a = heap env1 a"
    using IH an a_lt e(7) by auto
  have mem_a: "(a \<in> set (agents env')) = (a \<in> set (agents env1))"
  proof
    assume "a \<in> set (agents env')"
    then have "a \<in> set (agents env1) \<or> next_ref env1 \<le> a" using IH by blast
    then show "a \<in> set (agents env1)" using a_lt e(7) by auto
  next
    assume "a \<in> set (agents env1)"
    then show "a \<in> set (agents env')" using IH an by blast
  qed
  have p1: "occ_inv env'" using IH by blast
  have p2: "\<forall>b. b \<notin> set (a # rest) \<longrightarrow> b < next_ref env \<longrightarrow> heap env' b = heap env b"
  proof (intro allI impI)
    fix b assume b: "b \<notin> set (a # rest)" "b < next_ref env"
    then have "heap env' b = heap env1 b" using IH e(7) by auto
    then show "heap env' b = heap env b" using b e(2) by auto
  qed
  have p3: "\<forall>x \<in> set (a # rest). age (heap env' x) = age (heap env x) + 1 \<and>
        (x \<in> set (agents env')) = (\<not> (is_starving (heap env' x) \<or> is_old (heap env' x))) \<and>
        (\<exists>h. sugar (heap env' x) = sugar (heap env x) + (h - metabolism (heap env x))) \<and>
        lifespan (heap env' x) = lifespan (heap env x)"
  proof
    fix x assume x: "x \<in> set (a # rest)"
    show "age (heap env' x) = age (heap env x) + 1 \<and>
        (x \<in> set (agents env')) = (\<not> (is_starving (heap env' x) \<or> is_old (heap env' x))) \<and>
        (\<exists>h. sugar (heap env' x) = sugar (heap env x) + (h - metabolism (heap env x))) \<and>
        lifespan (heap env' x) = lifespan (heap env x)"
    proof (cases "x = a")
      case True
      then show ?thesis using ha mem_a e(3,4,12,13) by simp
    next
      case False
      then have xr: "x \<in> set rest" using x by simp
      have xlt: "x < next_ref env" using xr Cons.prems(3) bd by auto
      have "heap env1 x = heap env x" using e(2) False xlt by blast
      then show ?thesis using IH xr by auto
    qed
  qed
  have p4: "\<forall>b. b \<notin> set (a # rest) \<longrightarrow> b \<in> set (agents env) \<longrightarrow> b \<in> set (agents env')"
    using IH e(5) by auto
  have p5: "\<forall>b \<in> set (agents env'). b \<in> set (agents env) \<or> next_ref env \<le> b"
  proof
    fix b assume "b \<in> set (agents env')"
    then have "b \<in> set (agents env1) \<or> next_ref env1 \<le> b" using IH by blast
    then show "b \<in> set (agents env) \<or> next_ref env \<le> b" using e(6,7) by auto
  qed
  have p6: "next_ref env \<le> next_ref env'" using IH e(7) by auto
  have p7: "param_get (replace (env_params env)) False \<longrightarrow> length (agents env') = length (agents env)"
    using IH e(8,9) by auto
  have p8: "env_params env' = env_params env \<and> env_n env' = env_n env \<and> capacity env' = capacity env"
    using IH e(9,10,11) by auto
  show ?case using p1 p2 p3 p4 p5 p6 p7 p8 by blast
qed



lemma occ_inv_array [simp]: "occ_inv (env\<lparr>array := x\<rparr>) = occ_inv env"
  by (simp add: occ_inv_def locs_of_def)

lemma occ_inv_count_seq [simp]: "occ_inv (env\<lparr>agent_count_seq := x\<rparr>) = occ_inv env"
  by (simp add: occ_inv_def locs_of_def)

lemma occ_inv_grow [simp]: "occ_inv (grow env) = occ_inv env"
  by (simp add: grow_def Let_def)

lemma permutation_facts:
  "set (fst (permutation xs r)) = set xs" "distinct (fst (permutation xs r)) = distinct xs"
  by (simp_all add: permutation_def shuffle_set shuffle_distinct)

lemma sugarscape_step_cases:
  assumes "sugarscape_step env r = Some (Inr (k, env', r'))"
  obtains env1 where
    "visit_all (fst (permutation (agents env) r)) (env, snd (permutation (agents env) r)) =
       Some (Inr (env1, r'))"
    "env' = grow (env1\<lparr>agent_count_seq := agent_count_seq env1 @ [length (agents env1)]\<rparr>)"
    "k = length (agents env1)"
proof -
  define ro where "ro = fst (permutation (agents env) r)"
  define r1 where "r1 = snd (permutation (agents env) r)"
  have p: "permutation (agents env) r = (ro, r1)" by (simp add: ro_def r1_def)
  have st: "sugarscape_step env r =
     (case visit_all ro (env, r1) of
           None \<Rightarrow> None
         | Some (Inl e) \<Rightarrow> Some (Inl e)
         | Some (Inr (env1, r2)) \<Rightarrow>
             Some (Inr (length (agents (grow (env1\<lparr>agent_count_seq :=
                          agent_count_seq env1 @ [length (agents env1)]\<rparr>))),
                        grow (env1\<lparr>agent_count_seq :=
                          agent_count_seq env1 @ [length (agents env1)]\<rparr>), r2)))"
    by (simp only: sugarscape_step_def p prod.case Let_def)
  have ga: "\<And>e. agents (grow e) = agents e" by (simp add: grow_def Let_def)
  obtain env1 r2 where va: "visit_all ro (env, r1) = Some (Inr (env1, r2))"
    using assms unfolding st by (cases "visit_all ro (env, r1)") (auto split: sum.splits)
  have "r' = r2" "env' = grow (env1\<lparr>agent_count_seq := agent_count_seq env1 @ [length (agents env1)]\<rparr>)"
    "k = length (agents env1)"
    using assms unfolding st va by (auto simp: ga)
  then show ?thesis using that va unfolding ro_def r1_def by blast
qed

lemma sugarscape_step_effect:
  assumes "occ_inv env" "sugarscape_step env r = Some (Inr (k, env', r'))"
  shows "occ_inv env'" "k = length (agents env')"
    "\<forall>a \<in> set (agents env). age (heap env' a) = age (heap env a) + 1 \<and>
        (a \<in> set (agents env')) = (\<not> (is_starving (heap env' a) \<or> is_old (heap env' a))) \<and>
        (\<exists>h. sugar (heap env' a) = sugar (heap env a) + (h - metabolism (heap env a))) \<and>
        lifespan (heap env' a) = lifespan (heap env a)"
    "param_get (replace (env_params env)) False \<longrightarrow> length (agents env') = length (agents env)"
    "env_params env' = env_params env" "env_n env' = env_n env" "capacity env' = capacity env"
    "\<forall>b \<in> set (agents env'). b \<in> set (agents env) \<or> next_ref env \<le> b"
proof -
  from assms(2) obtain env1 where
    va: "visit_all (fst (permutation (agents env) r)) (env, snd (permutation (agents env) r)) =
       Some (Inr (env1, r'))"
    and e: "env' = grow (env1\<lparr>agent_count_seq := agent_count_seq env1 @ [length (agents env1)]\<rparr>)"
    and k: "k = length (agents env1)"
    by (rule sugarscape_step_cases)
  have d: "distinct (agents env)" using assms(1) by (simp add: occ_inv_def)
  have f: "agents env' = agents env1" "heap env' = heap env1" "env_params env' = env_params env1"
    "env_n env' = env_n env1" "capacity env' = capacity env1"
    by (simp_all add: e grow_def Let_def)
  note v = visit_all_effect[OF assms(1) _ _ va, unfolded permutation_facts, OF d subset_refl]
  show "occ_inv env'" using v by (simp add: e)
  show "k = length (agents env')" by (simp add: k f)
  show "\<forall>a \<in> set (agents env). age (heap env' a) = age (heap env a) + 1 \<and>
        (a \<in> set (agents env')) = (\<not> (is_starving (heap env' a) \<or> is_old (heap env' a))) \<and>
        (\<exists>h. sugar (heap env' a) = sugar (heap env a) + (h - metabolism (heap env a))) \<and>
        lifespan (heap env' a) = lifespan (heap env a)"
    unfolding f using v by blast
  show "param_get (replace (env_params env)) False \<longrightarrow> length (agents env') = length (agents env)"
    unfolding f using v by blast
  show "env_params env' = env_params env" "env_n env' = env_n env" "capacity env' = capacity env"
    unfolding f using v by blast+
  show "\<forall>b \<in> set (agents env'). b \<in> set (agents env) \<or> next_ref env \<le> b"
    unfolding f using v by blast
qed

lemma make_agents_occ_inv:
  assumes "make_agents env r = Inr (env', r')"
  shows "occ_inv env'"
proof -
  obtain bn bm where bx: "param_get (starting_box (env_params env)) (env_n env, env_n env) = (bn, bm)"
    by (cases "param_get (starting_box (env_params env)) (env_n env, env_n env)")
  obtain locs r1 where sh: "shuffle (make_locs bn bm) r = (locs, r1)"
    by (cases "shuffle (make_locs bn bm) r")
  define num where "num = param_get (num_agents (env_params env)) 400"
  obtain refs h nr where
    na: "new_agents (take num locs) (env_params env) (heap env) (next_ref env) r1 = Inr (refs, h, nr, r')"
    and e: "env' = env\<lparr>agents := refs, heap := h, next_ref := nr,
                         occupied := set (map (\<lambda>a. loc (h a)) refs)\<rparr>"
    using assms
    by (auto simp: make_agents_def bx sh Let_def num_def split: if_splits sum.splits)
  note f = new_agents_facts[OF na]
  have dl: "distinct locs" using shuffle_distinct[of "make_locs bn bm" r] sh
    by (simp add: distinct_make_locs)
  have "distinct (take num locs)" using dl by (rule distinct_take)
  then show ?thesis
    using f by (auto simp: occ_inv_def locs_of_def e list_all_iff)
qed

lemma reachable_occ_inv: "reachable env \<Longrightarrow> occ_inv env"
proof (induction rule: reachable.induct)
  case (init n p r env r')
  then show ?case by (auto simp: sugarscape_init_def intro: make_agents_occ_inv)
next
  case (step env r k env' r')
  then show ?case using sugarscape_step_effect(1) by blast
next
  case (add env r env' r')
  then show ?case using occ_inv_add_agent by blast
next
  case (make env r env' r')
  then show ?case using make_agents_occ_inv by blast
next
  case (grow env)
  then show ?case by simp
next
  case (harvest env l v env')
  then show ?case using harvest_cases[OF harvest(2)] by simp
qed

section \<open>Sugarscape: resource levels\<close>


lemma sint_of_nat_small: "k \<le> 4 \<Longrightarrow> sint (of_nat k :: int64) = int k"
proof -
  assume "k \<le> 4"
  then have "k = 0 \<or> k = 1 \<or> k = 2 \<or> k = 3 \<or> k = 4" by arith
  then show ?thesis by auto
qed

lemma digitize_range: "0 \<le> sint (digitize x [a, b, c, d]) \<and> sint (digitize x [a, b, c, d]) \<le> 4"
proof -
  have "length (filter (\<lambda>b. x < b) [a, b, c, d]) \<le> 4"
    using length_filter_le[of "\<lambda>b. x < b" "[a, b, c, d]"] by simp
  then show ?thesis unfolding digitize_def by (simp only: sint_of_nat_small) simp
qed

lemma make_capacity_range: "0 \<le> sint (make_capacity n l) \<and> sint (make_capacity n l) \<le> 4"
  unfolding make_capacity_def by (rule digitize_range)

text \<open>An \<^verbatim>\<open>int64\<close> sum that stays in range is the sum of the numbers.\<close>

lemma sint_add_fits:
  fixes a g :: int64
  assumes "0 \<le> sint a + sint g" "sint a + sint g < 2 ^ 63"
  shows "sint (a + g) = sint a + sint g"
proof -
  have "- (2 ^ 63) \<le> sint a + sint g" using assms(1) by simp
  then show ?thesis using assms(2) by (simp add: sint_word_add signed_take_bit_int_eq_self)
qed

lemma sint_minimum: "sint (minimum a b) = min (sint a) (sint b)"
  by (simp add: minimum_def min_def)

lemma visit_levels:
  assumes "visit a (env, r) = Some (Inr (env', r'))"
  shows "\<exists>l. array env' = (array env)(l := 0)"
proof -
  from assms obtain env2 r2 where
    as: "agent_step a (env\<lparr>occupied := occupied env - {loc (heap env a)}\<rparr>) r = Inr (env2, r2)"
    and cs: "(\<not> (is_starving (heap env2 a) \<or> is_old (heap env2 a)) \<and> r' = r2 \<and>
        env' = env2\<lparr>occupied := insert (loc (heap env2 a)) (occupied env2)\<rparr>) \<or>
     ((is_starving (heap env2 a) \<or> is_old (heap env2 a)) \<and> a \<in> set (agents env2) \<and>
        ((\<not> param_get (replace (env_params env2)) False \<and> r' = r2 \<and>
            env' = env2\<lparr>agents := remove1 a (agents env2)\<rparr>) \<or>
         (param_get (replace (env_params env2)) False \<and>
            add_agent (env2\<lparr>agents := remove1 a (agents env2)\<rparr>) r2 = Some (Inr (env', r')))))"
    by (rule visit_cases)
  have a2: "array env2 = (array env)(loc (heap env2 a) := 0)"
    using agent_step_effect(12)[OF as] by simp
  have "array env' = array env2"
    using cs by (auto elim!: add_agent_cases)
  then show ?thesis using a2 by (intro exI[of _ "loc (heap env2 a)"]) simp
qed

lemma visit_all_levels:
  assumes "visit_all rest (env, r) = Some (Inr (env', r'))"
  shows "\<forall>l. array env' l = array env l \<or> array env' l = 0"
  using assms
proof (induction rest arbitrary: env r)
  case Nil
  then show ?case by simp
next
  case (Cons a rest)
  from Cons.prems obtain env1 r1 where
    v: "visit a (env, r) = Some (Inr (env1, r1))" and
    va: "visit_all rest (env1, r1) = Some (Inr (env', r'))"
    by (auto split: option.splits sum.splits)
  from visit_levels[OF v] obtain l0 where "array env1 = (array env)(l0 := 0)" by blast
  then show ?case using Cons.IH[OF va] by (metis fun_upd_apply)
qed

lemma step_levels:
  assumes "occ_inv env" "sugarscape_step env r = Some (Inr (k, env', r'))"
  shows "\<exists>env1. env' = grow env1 \<and> capacity env1 = capacity env \<and>
           env_params env1 = env_params env \<and> env_n env1 = env_n env \<and>
           (\<forall>l. array env1 l = array env l \<or> array env1 l = 0)"
proof -
  from assms(2) obtain env1 where
    va: "visit_all (fst (permutation (agents env) r)) (env, snd (permutation (agents env) r)) =
       Some (Inr (env1, r'))"
    and e: "env' = grow (env1\<lparr>agent_count_seq := agent_count_seq env1 @ [length (agents env1)]\<rparr>)"
    by (rule sugarscape_step_cases)
  have d: "distinct (agents env)" using assms(1) by (simp add: occ_inv_def)
  note v = visit_all_effect[OF assms(1) _ _ va, unfolded permutation_facts, OF d subset_refl]
  note lv = visit_all_levels[OF va]
  show ?thesis
    by (rule exI[of _ "env1\<lparr>agent_count_seq := agent_count_seq env1 @ [length (agents env1)]\<rparr>"])
       (use e v lv in simp)
qed

lemma grow_cap_inv: "cap_inv env \<Longrightarrow> cap_inv (grow env)"
  by (simp add: cap_inv_def grow_def Let_def sint_minimum)

lemma grow_frame:
  "capacity (grow env) = capacity env" "env_params (grow env) = env_params env"
  "env_n (grow env) = env_n env"
  by (simp_all add: grow_def Let_def)

lemma grow_array:
  "array (grow env) l =
     minimum (array env l + param_get (grow_rate (env_params env)) 1) (capacity env l)"
  by (simp add: grow_def Let_def)

lemma rate_fits_cong:
  "env_n e = env_n env \<Longrightarrow> env_params e = env_params env \<Longrightarrow> capacity e = capacity env \<Longrightarrow>
   rate_fits e = rate_fits env"
  by (simp add: rate_fits_def)

lemma nonneg_inv_cong:
  "env_n e = env_n env \<Longrightarrow> array e = array env \<Longrightarrow> nonneg_inv e = nonneg_inv env"
  by (simp add: nonneg_inv_def)

lemma grow_nonneg_inv:
  assumes "cap_inv env" "nonneg_inv env" "rate_fits env"
  shows "nonneg_inv (grow env)"
  unfolding nonneg_inv_def
proof (intro allI impI)
  fix l
  assume "in_grid (env_n (grow env)) l"
  then have g: "in_grid (env_n env) l" by (simp add: grow_frame)
  define rate where "rate = param_get (grow_rate (env_params env)) 1"
  have a: "0 \<le> sint (array env l)" using assms(2) g unfolding nonneg_inv_def by blast
  have c: "sint (array env l) \<le> sint (capacity env l)" "0 \<le> sint (capacity env l)"
    using assms(1) unfolding cap_inv_def by blast+
  have r: "0 \<le> sint rate" "sint (capacity env l) + sint rate < 2 ^ 63"
    using assms(3) g unfolding rate_fits_def rate_def by blast+
  have "sint (array env l + rate) = sint (array env l) + sint rate"
    using a c r by (intro sint_add_fits) simp_all
  then have "0 \<le> sint (array env l + rate)" using a r(1) by simp
  then show "0 \<le> sint (array (grow env) l)"
    using c(2) by (simp add: grow_def Let_def sint_minimum rate_def)
qed

lemma make_agents_frame:
  assumes "make_agents env r = Inr (env', r')"
  shows "array env' = array env" "capacity env' = capacity env" "env_params env' = env_params env"
    "env_n env' = env_n env"
  using assms
  by (auto simp: make_agents_def Let_def split: prod.splits if_splits sum.splits)

lemma add_agent_frame:
  assumes "add_agent env r = Some (Inr (env', r'))"
  shows "array env' = array env" "capacity env' = capacity env" "env_params env' = env_params env"
    "env_n env' = env_n env"
  using assms by (auto elim!: add_agent_cases)

lemma zeroed_cap_inv:
  assumes "cap_inv env" "capacity e = capacity env" "\<forall>l. array e l = array env l \<or> array e l = 0"
  shows "cap_inv e"
  unfolding cap_inv_def
proof (intro allI)
  fix l
  have c: "sint (array env l) \<le> sint (capacity env l)" "0 \<le> sint (capacity env l)"
    using assms(1) unfolding cap_inv_def by blast+
  have "array e l = array env l \<or> array e l = 0" using assms(3) by blast
  then show "sint (array e l) \<le> sint (capacity e l) \<and> 0 \<le> sint (capacity e l)"
    unfolding assms(2) using c by auto
qed

lemma zeroed_nonneg_inv:
  assumes "nonneg_inv env" "env_n e = env_n env" "\<forall>l. array e l = array env l \<or> array e l = 0"
  shows "nonneg_inv e"
  unfolding nonneg_inv_def
proof (intro allI impI)
  fix l
  assume "in_grid (env_n e) l"
  then have "in_grid (env_n env) l" by (simp only: assms(2))
  then have "0 \<le> sint (array env l)" using assms(1) unfolding nonneg_inv_def by blast
  moreover have "array e l = array env l \<or> array e l = 0" using assms(3) by blast
  ultimately show "0 \<le> sint (array e l)" by auto
qed

lemma reachable_cap_inv: "reachable env \<Longrightarrow> cap_inv env"
proof (induction rule: reachable.induct)
  case (init n p r env r')
  note f = make_agents_frame[OF init[unfolded sugarscape_init_def]]
  have "array env = make_capacity n" "capacity env = make_capacity n" using f(1,2) by simp_all
  then show ?case unfolding cap_inv_def using make_capacity_range[of n] by simp
next
  case (step env r k env' r')
  from step_levels[OF reachable_occ_inv[OF step(1)] step(2)] obtain env1 where
    e: "env' = grow env1" "capacity env1 = capacity env"
       "\<forall>l. array env1 l = array env l \<or> array env1 l = 0" by blast
  have "cap_inv env1" using step(3) e(2,3) by (rule zeroed_cap_inv)
  then show ?case unfolding e(1) by (rule grow_cap_inv)
next
  case (add env r env' r')
  then show ?case using add_agent_frame(1,2)[OF add(2)] by (simp add: cap_inv_def)
next
  case (make env r env' r')
  then show ?case using make_agents_frame(1,2)[OF make(2)] by (simp add: cap_inv_def)
next
  case (grow env)
  show ?case using grow(2) by (rule grow_cap_inv)
next
  case (harvest env l v env')
  have "\<forall>c. array env' c = array env c \<or> array env' c = 0"
    using harvest_cases[OF harvest(2)] by simp
  moreover have "capacity env' = capacity env" using harvest_cases[OF harvest(2)] by simp
  ultimately show ?case using zeroed_cap_inv[OF harvest(3)] by blast
qed

lemma reachable_nonneg_inv:
  "reachable env \<Longrightarrow> rate_fits env \<Longrightarrow> nonneg_inv env"
proof (induction rule: reachable.induct)
  case (init n p r env r')
  note f = make_agents_frame[OF init(1)[unfolded sugarscape_init_def]]
  have "array env = make_capacity n" using f(1) by simp
  then show ?case unfolding nonneg_inv_def using make_capacity_range[of n] by simp
next
  case (step env r k env' r')
  from step_levels[OF reachable_occ_inv[OF step(1)] step(2)] obtain env1 where
    e: "env' = grow env1" "capacity env1 = capacity env" "env_params env1 = env_params env"
       "env_n env1 = env_n env"
       "\<forall>l. array env1 l = array env l \<or> array env1 l = 0" by blast
  have f1: "rate_fits env1" using step(4) by (simp add: e(1) rate_fits_def grow_frame)
  then have f: "rate_fits env" using rate_fits_cong[OF e(4,3,2)] by simp
  have c: "cap_inv env" using step(1) by (rule reachable_cap_inv)
  have n1: "nonneg_inv env1" using step(3)[OF f] e(4,5) by (rule zeroed_nonneg_inv)
  have c1: "cap_inv env1" using c e(2,5) by (rule zeroed_cap_inv)
  show ?case unfolding e(1) using c1 n1 f1 by (rule grow_nonneg_inv)
next
  case (add env r env' r')
  note f = add_agent_frame[OF add(2)]
  have "rate_fits env" using add(4) rate_fits_cong[OF f(4,3,2)] by simp
  then show ?case using add(3) nonneg_inv_cong[OF f(4,1)] by simp
next
  case (make env r env' r')
  note f = make_agents_frame[OF make(2)]
  have "rate_fits env" using make(4) rate_fits_cong[OF f(4,3,2)] by simp
  then show ?case using make(3) nonneg_inv_cong[OF f(4,1)] by simp
next
  case (grow env)
  have f: "rate_fits env" using grow(3) by (simp add: rate_fits_def grow_frame)
  show ?case using reachable_cap_inv[OF grow(1)] grow(2)[OF f] f by (rule grow_nonneg_inv)
next
  case (harvest env l v env')
  note h = harvest_cases[OF harvest(2)]
  have f: "rate_fits env" using harvest(4) h by (simp add: rate_fits_def)
  have "\<forall>c. array env' c = array env c \<or> array env' c = 0" using h by simp
  moreover have "env_n env' = env_n env" using h by simp
  ultimately show ?case using zeroed_nonneg_inv[OF harvest(3)[OF f]] by blast
qed

lemma reachable_capacity: "reachable env \<Longrightarrow> capacity env = make_capacity (env_n env)"
proof (induction rule: reachable.induct)
  case (init n p r env r')
  note f = make_agents_frame[OF init[unfolded sugarscape_init_def]]
  show ?case using f(2,4) by simp
next
  case (step env r k env' r')
  note e = sugarscape_step_effect[OF reachable_occ_inv[OF step(1)] step(2)]
  show ?case using step(3) e(6,7) by simp
next
  case (add env r env' r')
  then show ?case using add_agent_frame(2,4)[OF add(2)] by simp
next
  case (make env r env' r')
  then show ?case using make_agents_frame(2,4)[OF make(2)] by simp
next
  case (grow env)
  then show ?case by (simp add: grow_frame)
next
  case (harvest env l v env')
  then show ?case using harvest_cases[OF harvest(2)] by simp
qed

lemma small_rate_fits:
  assumes "reachable env" "0 \<le> sint (param_get (grow_rate (env_params env)) 1)"
    "sint (param_get (grow_rate (env_params env)) 1) \<le> 2 ^ 63 - 5"
  shows "rate_fits env"
  unfolding rate_fits_def
proof (intro conjI allI impI)
  show "0 \<le> sint (param_get (grow_rate (env_params env)) 1)" by (rule assms(2))
  fix l
  have "sint (capacity env l) \<le> 4"
    unfolding reachable_capacity[OF assms(1)] using make_capacity_range by blast
  then show "sint (capacity env l) + sint (param_get (grow_rate (env_params env)) 1) < 2 ^ 63"
    using assms(3) by simp
qed

lemma grow_level:
  assumes "cap_inv env" "nonneg_inv env" "rate_fits env" "in_grid (env_n env) l"
  shows "sint (array (grow env) l) =
         min (sint (array env l) + sint (param_get (grow_rate (env_params env)) 1))
             (sint (capacity env l))"
proof -
  define rate where "rate = param_get (grow_rate (env_params env)) 1"
  have a: "0 \<le> sint (array env l)" using assms(2,4) unfolding nonneg_inv_def by blast
  have c: "sint (array env l) \<le> sint (capacity env l)"
    using assms(1) unfolding cap_inv_def by blast
  have r: "0 \<le> sint rate" "sint (capacity env l) + sint rate < 2 ^ 63"
    using assms(3,4) unfolding rate_fits_def rate_def by blast+
  have "sint (array env l + rate) = sint (array env l) + sint rate"
    using a c r by (intro sint_add_fits) simp_all
  then show ?thesis by (simp add: grow_array sint_minimum rate_def)
qed
section \<open>Sugarscape: concrete runs\<close>


lemma sqrt_less_numeral: "0 \<le> b \<Longrightarrow> (sqrt x < b) = (x < b\<^sup>2)"
  by (metis real_sqrt_less_iff real_sqrt_abs abs_of_nonneg)

lemma digitize_sqrt:
  "digitize (min (sqrt x) (sqrt y)) bins =
   of_nat (length (filter (\<lambda>b. sqrt x < b \<or> sqrt y < b) bins))"
  by (simp add: digitize_def min_less_iff_disj)

lemma make_capacity_1: "make_capacity (Suc 0) (0, 0) = 0"
  by (simp add: make_capacity_def distances_from_def digitize_def sqrt_less_numeral)

lemma make_locs_1_1: "make_locs (Suc 0) (Suc 0) = [(0, 0)]"
  by code_simp

lemma init_c: "sugarscape_init 1 params_c rng0 = Inr (env_c, rng0)"
  by (simp add: sugarscape_init_def make_agents_def params_c_def default_params_def param_get_def
        make_locs_1_1 shuffle_def env_c_def)

text \<open>With a negative growth rate a level falls below 0: the constructor on a 1 by 1
  grid with \<^verbatim>\<open>grow_rate=-1\<close> and no agent, then one \<^verbatim>\<open>grow\<close>.\<close>

lemma negative_rate_example: "reachable (grow env_c) \<and> in_grid (env_n (grow env_c)) (0, 0) \<and>
   sint (array (grow env_c) (0, 0)) = - 1"
proof -
  have "reachable env_c" using init_c by (rule reachable.init)
  then have r: "reachable (grow env_c)" by (rule reachable.grow)
  have "array (grow env_c) (0, 0) = minimum (make_capacity (Suc 0) (0, 0) + (- 1)) (make_capacity (Suc 0) (0, 0))"
    unfolding grow_array
    by (simp add: env_c_def params_c_def default_params_def param_get_def)
  then have a: "array (grow env_c) (0, 0) = - 1"
    by (simp add: make_capacity_1 minimum_def)
  show ?thesis using r by (simp add: a) (simp add: grow_frame in_grid_def env_c_def)
qed


lemma shuffle_from_numeral:
  "shuffle_from (numeral k) xs r =
     (case next_int r of (x, r') \<Rightarrow>
        shuffle_from (pred_numeral k) (swap xs (numeral k) (x mod Suc (numeral k))) r')"
  by (simp add: numeral_eq_Suc)

lemma shuffle_from_1:
  "shuffle_from (Suc 0) xs r =
     (case next_int r of (x, r') \<Rightarrow> (swap xs (Suc 0) (x mod Suc (Suc 0)), r'))"
  by (simp split: prod.splits)

lemmas eval_rng = next_int_def next_real_def randint_def randint_below_def uniform_def
  shuffle_def shuffle_from_numeral shuffle_from_1 swap_def permutation_def

text \<open>Evaluating the constructor and one step on small inputs.\<close>

lemma make_capacity_2:
  "make_capacity 2 (0, 0) = 0" "make_capacity 2 (0, Suc 0) = 1"
  "make_capacity 2 (Suc 0, 0) = 1" "make_capacity 2 (Suc 0, Suc 0) = 1"
  by (simp_all add: make_capacity_def distances_from_def digitize_def sqrt_less_numeral)

lemma shuffle_2_2: "shuffle (make_locs 2 2) rng0 = ([(0,1),(1,0),(1,1),(0,0)], rng0\<lparr>pos := 3\<rparr>)"
  by (simp add: make_locs_2_2 eval_rng rng0_def)

lemma init_a: "sugarscape_init 2 params_a rng0 = Inr (env_a, rng0\<lparr>pos := 11\<rparr>)"
  by (simp add: sugarscape_init_def make_agents_def params_a_def default_params_def param_get_def
        make_locs_2_2 new_agent_def env_a_def eval_rng rng0_def)


lemma upto_1_1: "[1..1::int] = [1]"
  by (simp add: upto.simps)

lemma init_b: "sugarscape_init 1 params_b rng0 = Inr (env_b, rng0\<lparr>pos := 4\<rparr>)"
  by (simp add: sugarscape_init_def make_agents_def params_b_def default_params_def param_get_def
        make_locs_1_1 new_agent_def env_b_def eval_rng rng0_def)

lemma lm_b: "look_and_move (env_b\<lparr>occupied := {}\<rparr>) (0, 0) 1 (rng0\<lparr>pos := 4\<rparr>) =
    Inr ((0, 0), rng0\<lparr>pos := 7\<rparr>)"
  by (simp add: look_and_move_def make_visible_locs_def upto_1_1 make_array_def eval_rng rng0_def
        np_mod_def env_b_def in_grid_def argmax_def Let_def)


lemma as_b: "\<exists>env2. agent_step 0 (env_b\<lparr>occupied := {}\<rparr>) (rng0\<lparr>pos := 4\<rparr>) =
    Inr (env2, rng0\<lparr>pos := 7\<rparr>) \<and> is_old (heap env2 0) \<and> agents env2 = [0] \<and>
    occupied env2 = {} \<and> env_n env2 = 1 \<and> env_params env2 = params_b \<and> next_ref env2 = 1"
proof -
  have h: "loc (heap (env_b\<lparr>occupied := {}\<rparr>) 0) = (0, 0)" "vision (heap (env_b\<lparr>occupied := {}\<rparr>) 0) = 1"
    by (simp_all add: env_b_def)
  show ?thesis
    unfolding agent_step_def h lm_b
    by (simp add: harvest_def in_grid_def Let_def is_old_def) (simp add: env_b_def)
qed

lemma rl_b: "occupied e = {} \<Longrightarrow> env_n e = 1 \<Longrightarrow>
   random_loc e (rng0\<lparr>pos := 7\<rparr>) = Some (Inr ((0, 0), rng0\<lparr>pos := 9\<rparr>))"
  by (subst random_loc.simps) (simp add: eval_rng rng0_def)

lemma step_b: "\<exists>k env' r'. sugarscape_step env_b (rng0\<lparr>pos := 4\<rparr>) = Some (Inr (k, env', r')) \<and>
    agents env' = [1]"
proof -
  obtain env2 where a: "agent_step 0 (env_b\<lparr>occupied := {}\<rparr>) (rng0\<lparr>pos := 4\<rparr>) =
    Inr (env2, rng0\<lparr>pos := 7\<rparr>)" "is_old (heap env2 0)" "agents env2 = [0]"
    "occupied env2 = {}" "env_n env2 = 1" "env_params env2 = params_b" "next_ref env2 = 1"
    using as_b by blast
  have p: "permutation (agents env_b) (rng0\<lparr>pos := 4\<rparr>) = ([0], rng0\<lparr>pos := 4\<rparr>)"
    by (simp add: env_b_def eval_rng)
  have o: "env_b\<lparr>occupied := occupied env_b - {loc (heap env_b 0)}\<rparr> = env_b\<lparr>occupied := {}\<rparr>"
    "loc (heap env_b 0) \<in> occupied env_b"
    by (simp_all add: env_b_def)
  have rp: "param_get (replace params_b) False" by (simp add: params_b_def param_get_def)
  have aa: "\<exists>e r. add_agent (env2\<lparr>agents := remove1 0 (agents env2)\<rparr>) (rng0\<lparr>pos := 7\<rparr>) =
        Some (Inr (e, r)) \<and> agents e = [1]"
    unfolding add_agent_def rl_b[of "env2\<lparr>agents := remove1 0 (agents env2)\<rparr>", simplified, OF a(4) a(5)[simplified]]
    by (simp add: a new_agent_def params_b_def default_params_def param_get_def
          eval_rng rng0_def)
  then obtain e r where ae: "add_agent (env2\<lparr>agents := remove1 0 (agents env2)\<rparr>) (rng0\<lparr>pos := 7\<rparr>) =
        Some (Inr (e, r))" "agents e = [1]" by blast
  have ae': "add_agent (env2\<lparr>agents := []\<rparr>) (rng0\<lparr>pos := 7\<rparr>) = Some (Inr (e, r))"
    using ae(1) a(3) by simp
  have v: "visit 0 (env_b, rng0\<lparr>pos := 4\<rparr>) = Some (Inr (e, r))"
    by (simp add: visit_def o a Let_def rp ae')
  show ?thesis
    by (simp add: sugarscape_step_def p v Let_def grow_def ae)
qed

text \<open>With the largest \<^verbatim>\<open>int64\<close> as growth rate a level falls below 0 too: on a 2 by 2
  grid the cell (0, 1) has capacity 1, and \<open>1 + (2 ^ 63 - 1)\<close> wraps around to \<open>- (2 ^ 63)\<close>.\<close>

lemma init_e: "sugarscape_init 2 params_e rng0 = Inr (env_e, rng0\<lparr>pos := 3\<rparr>)"
  by (simp add: sugarscape_init_def make_agents_def params_e_def default_params_def param_get_def
        make_locs_2_2 env_e_def eval_rng rng0_def)

lemma growth_overflow_example:
  "reachable (grow env_e) \<and> in_grid (env_n (grow env_e)) (0, 1) \<and>
   0 \<le> sint (param_get (grow_rate (env_params (grow env_e))) 1) \<and>
   sint (array (grow env_e) (0, 1)) = - (2 ^ 63)"
proof -
  have "reachable env_e" using init_e by (rule reachable.init)
  then have r: "reachable (grow env_e)" by (rule reachable.grow)
  have "array (grow env_e) (0, Suc 0) =
        minimum (make_capacity 2 (0, Suc 0) + 0x7FFFFFFFFFFFFFFF) (make_capacity 2 (0, Suc 0))"
    unfolding grow_array
    by (simp add: env_e_def params_e_def default_params_def param_get_def)
  then have a: "array (grow env_e) (0, Suc 0) = 0x8000000000000000"
    by (simp add: make_capacity_2 minimum_def)
  show ?thesis
    using r by (simp add: a) (simp add: grow_frame in_grid_def env_e_def params_e_def param_get_def)
qed
section \<open>Sugarscape: the claims on the occupancy index, the lifecycle and the levels\<close>

lemma occ_inv_index_matches:
  assumes "occ_inv env"
  shows "index_matches env"
proof -
  have d: "distinct (locs_of env)" and o: "occupied env = set (locs_of env)"
    using assms by (simp_all add: occ_inv_def)
  have c: "card (occupied env) = length (agents env)"
    unfolding o using distinct_card[OF d] by (simp add: locs_of_def)
  have m: "list_all (\<lambda>a. loc (heap env a) \<in> occupied env) (agents env)"
    unfolding o by (simp add: locs_of_def list_all_iff)
  show ?thesis unfolding index_matches_def using c m d o by blast
qed

text \<open>
  \<^bold>\<open>C1.\<close> In every state reachable from the constructor (through \<^verbatim>\<open>step\<close>,
  \<^verbatim>\<open>add_agent\<close>, \<^verbatim>\<open>make_agents\<close>, \<^verbatim>\<open>grow\<close> and \<^verbatim>\<open>harvest\<close>) the occupancy
  index matches the agents: it has as many cells as there are agents, it holds every agent's
  location, no two agents share a location and it holds nothing else. So it holds before every
  call, and again after every call of \<^verbatim>\<open>step\<close>, \<^verbatim>\<open>add_agent\<close> and
  \<^verbatim>\<open>make_agents\<close> that returns.
\<close>

theorem occupancy_index_bijection:
  assumes "reachable env"
  shows "index_matches env \<and>
    (\<forall>r k env' r'. sugarscape_step env r = Some (Inr (k, env', r')) \<longrightarrow> index_matches env') \<and>
    (\<forall>r env' r'. add_agent env r = Some (Inr (env', r')) \<longrightarrow> index_matches env') \<and>
    (\<forall>r env' r'. make_agents env r = Inr (env', r') \<longrightarrow> index_matches env')"
proof -
  have i: "occ_inv env" using assms by (rule reachable_occ_inv)
  show ?thesis
    using i sugarscape_step_effect(1)[OF i] occ_inv_add_agent[OF i] make_agents_occ_inv
    by (blast intro: occ_inv_index_matches)
qed

theorem occupancy_index_bijection_witness:
  "reachable env_a \<and> length (agents env_a) = 2 \<and> index_matches env_a"
proof -
  have r: "reachable env_a" using init_a by (rule reachable.init)
  show ?thesis using occupancy_index_bijection[OF r] r by (simp add: env_a_def)
qed

text \<open>
  \<^bold>\<open>C5.\<close> After one call of \<^verbatim>\<open>step\<close> on a reachable state, every agent of the
  starting population has been updated once (its age is one more, its balance is the old one
  plus a harvest minus its metabolism, its lifespan is the same), and it is still in the
  population exactly if, after that update, its balance is not negative and its age does not
  exceed its lifespan (stated with the two predicates of the agent and with the numbers they
  compare). The occupancy index holds the locations of the agents that are in the
  population at the end, and nothing else. With \<^verbatim>\<open>replace\<close> on, the population has the size
  it had at the start, which is the number \<^verbatim>\<open>step\<close> returns.
\<close>

theorem dead_agents_removed_same_tick:
  assumes "reachable env" and "sugarscape_step env r = Some (Inr (k, env', r'))"
  shows "(\<forall>a \<in> set (agents env).
            age (heap env' a) = age (heap env a) + 1 \<and>
            (\<exists>h. sugar (heap env' a) = sugar (heap env a) + (h - metabolism (heap env a))) \<and>
            lifespan (heap env' a) = lifespan (heap env a) \<and>
            (is_starving (heap env' a) \<or> is_old (heap env' a) \<longrightarrow> a \<notin> set (agents env')) \<and>
            (\<not> (is_starving (heap env' a) \<or> is_old (heap env' a)) \<longrightarrow> a \<in> set (agents env')) \<and>
            (sugar (heap env' a) < 0 \<or> lifespan (heap env' a) < real (age (heap env' a)) \<longrightarrow>
               a \<notin> set (agents env')) \<and>
            (0 \<le> sugar (heap env' a) \<and> real (age (heap env' a)) \<le> lifespan (heap env' a) \<longrightarrow>
               a \<in> set (agents env'))) \<and>
         index_matches env' \<and> k = length (agents env') \<and>
         (param_get (replace (env_params env)) False \<longrightarrow>
            length (agents env') = length (agents env))"
proof -
  have i: "occ_inv env" using assms(1) by (rule reachable_occ_inv)
  note e = sugarscape_step_effect[OF i assms(2)]
  have d: "(sugar (heap env' a) < 0 \<or> lifespan (heap env' a) < real (age (heap env' a)) \<longrightarrow>
               a \<notin> set (agents env')) \<and>
          (0 \<le> sugar (heap env' a) \<and> real (age (heap env' a)) \<le> lifespan (heap env' a) \<longrightarrow>
               a \<in> set (agents env'))" if "a \<in> set (agents env)" for a
  proof -
    have "(a \<in> set (agents env')) = (\<not> (is_starving (heap env' a) \<or> is_old (heap env' a)))"
      using e(3) that by blast
    then show ?thesis by (auto simp: is_starving_def is_old_def)
  qed
  show ?thesis
    using e(2,3,4) d occ_inv_index_matches[OF e(1)] by blast
qed

theorem dead_agents_removed_same_tick_witness:
  "reachable env_b \<and> agents env_b = [0] \<and> param_get (replace (env_params env_b)) False \<and>
   (\<exists>k env' r'. sugarscape_step env_b (rng0\<lparr>pos := 4\<rparr>) = Some (Inr (k, env', r')) \<and>
      is_old (heap env' 0) \<and> 0 \<notin> set (agents env') \<and> length (agents env') = 1 \<and> k = 1)"
proof -
  have r: "reachable env_b" using init_b by (rule reachable.init)
  obtain k env' r' where
    s: "sugarscape_step env_b (rng0\<lparr>pos := 4\<rparr>) = Some (Inr (k, env', r'))" and a: "agents env' = [1]"
    using step_b by blast
  have p: "param_get (replace (env_params env_b)) False"
    by (simp add: env_b_def params_b_def param_get_def)
  have b: "agents env_b = [0]" by (simp add: env_b_def)
  have "age (heap env' 0) = age (heap env_b 0) + 1 \<and> lifespan (heap env' 0) = lifespan (heap env_b 0)"
    using dead_agents_removed_same_tick[OF r s] b by simp
  then have o: "is_old (heap env' 0)"
    by (simp add: is_old_def env_b_def)
  show ?thesis
    using dead_agents_removed_same_tick[OF r s] r s a b p o by auto
qed

text \<open>
  \<^bold>\<open>C6 (amended).\<close> In every reachable state and for every cell of the grid, the level is
  at most the cell's capacity. It is at least 0 when the growth rate fits: it is not negative
  and its sum with the capacity of each cell of the grid is an \<^verbatim>\<open>int64\<close>, which holds for
  every rate from 0 to \<open>2 ^ 63 - 5\<close>, as no capacity exceeds 4. The array starts equal to the
  capacity, \<^verbatim>\<open>harvest\<close> returns the level of one cell and sets that cell, and no other, to
  0, and \<^verbatim>\<open>grow\<close> adds the rate to every cell in \<^verbatim>\<open>int64\<close> and cuts the result at the
  capacity; with a rate that fits the new level is the smaller of level plus rate and capacity.
\<close>

theorem resource_levels_bounded:
  assumes "reachable env" and "in_grid (env_n env) l"
  shows "sint (array env l) \<le> sint (capacity env l) \<and>
         (rate_fits env \<longrightarrow>
            0 \<le> sint (array env l) \<and>
            sint (array (grow env) l) =
              min (sint (array env l) + sint (param_get (grow_rate (env_params env)) 1))
                  (sint (capacity env l))) \<and>
         (0 \<le> sint (param_get (grow_rate (env_params env)) 1) \<and>
          sint (param_get (grow_rate (env_params env)) 1) \<le> 2 ^ 63 - 5 \<longrightarrow> rate_fits env) \<and>
         (\<forall>n p r e r'. sugarscape_init n p r = Inr (e, r') \<longrightarrow> array e = capacity e) \<and>
         (\<forall>v e. harvest env l = Inr (v, e) \<longrightarrow> v = array env l \<and> array e = (array env)(l := 0)) \<and>
         array (grow env) l =
           minimum (array env l + param_get (grow_rate (env_params env)) 1) (capacity env l)"
proof -
  note ci = reachable_cap_inv[OF assms(1)]
  have c: "sint (array env l) \<le> sint (capacity env l)"
    using ci unfolding cap_inv_def by blast
  have n: "0 \<le> sint (array env l) \<and>
           sint (array (grow env) l) =
              min (sint (array env l) + sint (param_get (grow_rate (env_params env)) 1))
                  (sint (capacity env l))" if f: "rate_fits env"
  proof -
    note ni = reachable_nonneg_inv[OF assms(1) f]
    have "0 \<le> sint (array env l)" using ni assms(2) unfolding nonneg_inv_def by blast
    then show ?thesis using grow_level[OF ci ni f assms(2)] by simp
  qed
  have s: "rate_fits env" if "0 \<le> sint (param_get (grow_rate (env_params env)) 1) \<and>
          sint (param_get (grow_rate (env_params env)) 1) \<le> 2 ^ 63 - 5"
    using small_rate_fits[OF assms(1)] that by blast
  have i: "array e = capacity e" if "sugarscape_init n p r = Inr (e, r')" for n p r e r'
    using make_agents_frame(1,2)[OF that[unfolded sugarscape_init_def]] by simp
  have h: "v = array env l \<and> array e = (array env)(l := 0)" if "harvest env l = Inr (v, e)" for v e
    using harvest_cases[OF that] by simp
  have g: "array (grow env) l =
           minimum (array env l + param_get (grow_rate (env_params env)) 1) (capacity env l)"
    by (rule grow_array)
  show ?thesis using c n s i h g by blast
qed

text \<open>On the 2 by 2 grid that the constructor builds with two agents, the cell (1, 1) has
  capacity 1 and holds 1; \<^verbatim>\<open>harvest\<close> takes it to 0 and \<^verbatim>\<open>grow\<close> back to 1.\<close>

theorem resource_levels_bounded_witness:
  "\<exists>e. harvest env_a (1, 1) = Inr (1, e) \<and> reachable e \<and> in_grid (env_n e) (1, 1) \<and>
       rate_fits e \<and> sint (capacity e (1, 1)) = 1 \<and>
       sint (array env_a (1, 1)) = 1 \<and> sint (array e (1, 1)) = 0 \<and>
       sint (array (grow e) (1, 1)) = 1"
proof -
  define e where "e = env_a\<lparr>array := (array env_a)((1, 1) := 0)\<rparr>"
  have ra: "reachable env_a" using init_a by (rule reachable.init)
  have ga: "in_grid (env_n env_a) (1, 1)" by (simp add: env_a_def in_grid_def)
  have h: "harvest env_a (1, 1) = Inr (1, e)"
    by (simp add: harvest_def in_grid_def e_def env_a_def make_capacity_2)
  have re: "reachable e" using ra h by (rule reachable.harvest)
  have ge: "in_grid (env_n e) (1, 1)" using ga by (simp add: e_def)
  have p: "param_get (grow_rate (env_params e)) 1 = 1"
    by (simp add: e_def env_a_def params_a_def default_params_def param_get_def)
  have f: "rate_fits e" using resource_levels_bounded[OF re ge] by (simp add: p)
  have c: "sint (capacity e (1, 1)) = 1" by (simp add: e_def env_a_def make_capacity_2)
  have a0: "sint (array env_a (1, 1)) = 1" by (simp add: env_a_def make_capacity_2)
  have a1: "sint (array e (1, 1)) = 0" by (simp add: e_def)
  have "sint (array (grow e) (1, 1)) =
          min (sint (array e (1, 1)) + sint (param_get (grow_rate (env_params e)) 1))
              (sint (capacity e (1, 1)))"
    using resource_levels_bounded[OF re ge] f by blast
  then have a2: "sint (array (grow e) (1, 1)) = 1" unfolding p c a1 by simp
  show ?thesis using h re ge f c a0 a1 a2 by blast
qed

text \<open>The claim as first worded (a level never below 0, for every configuration) fails with
  a negative growth rate, and with a growth rate so large that the sum wraps around.\<close>

theorem level_below_zero_counterexample:
  "sugarscape_init 1 params_c rng0 = Inr (env_c, rng0) \<and> reachable (grow env_c) \<and>
   in_grid (env_n (grow env_c)) (0, 0) \<and> sint (array (grow env_c) (0, 0)) < 0 \<and>
   sugarscape_init 2 params_e rng0 = Inr (env_e, rng0\<lparr>pos := 3\<rparr>) \<and> reachable (grow env_e) \<and>
   in_grid (env_n (grow env_e)) (0, 1) \<and>
   0 \<le> sint (param_get (grow_rate (env_params (grow env_e))) 1) \<and>
   sint (array (grow env_e) (0, 1)) < 0"
  using negative_rate_example init_c growth_overflow_example init_e by simp
section \<open>Sugarscape: when the search for a free cell returns\<close>


lemma random_loc_step:
  assumes "0 < env_n env"
  shows "random_loc env r =
     (if attempt env r 0 \<notin> occupied env then Some (Inr (attempt env r 0, r\<lparr>pos := pos r + 2\<rparr>))
      else random_loc env (r\<lparr>pos := pos r + 2\<rparr>))"
  using assms
  by (subst random_loc.simps) (simp add: randint_below_cases attempt_def)

lemma attempt_shift: "attempt env (r\<lparr>pos := pos r + 2\<rparr>) k = attempt env r (Suc k)"
  by (simp add: attempt_def)

lemma random_loc_found:
  assumes "0 < env_n env" "attempt env r k \<notin> occupied env" "\<forall>j<k. attempt env r j \<in> occupied env"
  shows "random_loc env r = Some (Inr (attempt env r k, r\<lparr>pos := pos r + 2 * Suc k\<rparr>))"
  using assms
proof (induction k arbitrary: r)
  case 0
  then show ?case by (simp add: random_loc_step)
next
  case (Suc k)
  have f: "attempt env r 0 \<in> occupied env" using Suc.prems(3) by simp
  define r2 where "r2 = r\<lparr>pos := pos r + 2\<rparr>"
  have s: "\<And>j. attempt env r2 j = attempt env r (Suc j)"
    unfolding r2_def by (rule attempt_shift)
  have a1: "attempt env r2 k \<notin> occupied env" using Suc.prems(2) unfolding s .
  have a2: "\<forall>j<k. attempt env r2 j \<in> occupied env" using Suc.prems(3) unfolding s by auto
  have "random_loc env r2 = Some (Inr (attempt env r2 k, r2\<lparr>pos := pos r2 + 2 * Suc k\<rparr>))"
    using Suc.prems(1) a1 a2 by (rule Suc.IH)
  moreover have "random_loc env r = random_loc env r2"
    using f Suc.prems(1) by (simp add: random_loc_step[of env r] r2_def)
  moreover have "r2\<lparr>pos := pos r2 + 2 * Suc k\<rparr> = r\<lparr>pos := pos r + 2 * Suc (Suc k)\<rparr>"
    by (simp add: r2_def)
  ultimately show ?case by (simp only: s)
qed

lemma random_loc_some_attempt:
  assumes "random_loc env r = Some y"
  shows "0 < env_n env \<longrightarrow> (\<exists>k. attempt env r k \<notin> occupied env)"
proof (rule random_loc.raw_induct[where P = "\<lambda>env r y. 0 < env_n env \<longrightarrow>
           (\<exists>k. attempt env r k \<notin> occupied env)", OF _ assms])
  fix f :: "sugarscape \<Rightarrow> rng \<Rightarrow> (error + (loc \<times> rng)) option" and env r y
  assume IH: "\<And>env r y. f env r = Some y \<Longrightarrow>
                0 < env_n env \<longrightarrow> (\<exists>k. attempt env r k \<notin> occupied env)"
    and st: "(case randint_below (env_n env) r of Inl e \<Rightarrow> Some (Inl e)
      | Inr (i, r1) \<Rightarrow>
          case randint_below (env_n env) r1 of Inl e \<Rightarrow> Some (Inl e)
          | Inr (j, r2) \<Rightarrow>
              if (i, j) \<notin> occupied env then Some (Inr ((i, j), r2))
              else f env r2) = Some y"
  show "0 < env_n env \<longrightarrow> (\<exists>k. attempt env r k \<notin> occupied env)"
  proof
    assume n: "0 < env_n env"
    show "\<exists>k. attempt env r k \<notin> occupied env"
    proof (cases "attempt env r 0 \<notin> occupied env")
      case True
      then show ?thesis by blast
    next
      case False
      then have "f env (r\<lparr>pos := pos r + 2\<rparr>) = Some y"
        using st n by (simp add: randint_below_cases attempt_def)
      then obtain k where "attempt env (r\<lparr>pos := pos r + 2\<rparr>) k \<notin> occupied env"
        using IH n by blast
      then have "attempt env r (Suc k) \<notin> occupied env" unfolding attempt_shift .
      then show ?thesis by blast
    qed
  qed
qed

lemma random_loc_returns_iff:
  "(\<exists>y. random_loc env r = Some y) = (env_n env = 0 \<or> (\<exists>k. attempt env r k \<notin> occupied env))"
proof
  assume "\<exists>y. random_loc env r = Some y"
  then show "env_n env = 0 \<or> (\<exists>k. attempt env r k \<notin> occupied env)"
    using random_loc_some_attempt by blast
next
  assume a: "env_n env = 0 \<or> (\<exists>k. attempt env r k \<notin> occupied env)"
  show "\<exists>y. random_loc env r = Some y"
  proof (cases "env_n env = 0")
    case True
    then show ?thesis by (subst random_loc.simps) (simp add: randint_below_cases)
  next
    case False
    obtain k where k: "attempt env r k \<notin> occupied env" using a False by blast
    define m where "m = (LEAST k. attempt env r k \<notin> occupied env)"
    have m1: "attempt env r m \<notin> occupied env" unfolding m_def using k by (rule LeastI)
    have m2: "\<forall>j<m. attempt env r j \<in> occupied env"
      unfolding m_def using not_less_Least by blast
    show ?thesis using random_loc_found[OF _ m1 m2] False by simp
  qed
qed

lemma random_loc_stuck:
  "0 < env_n env \<Longrightarrow> \<forall>k. attempt env r k \<in> occupied env \<Longrightarrow> random_loc env r = None"
  using random_loc_returns_iff[of env r] by auto


section \<open>Drawing only moves the cursor of the random source\<close>


lemma advanced_refl [simp]: "advanced r r"
  by (simp add: advanced_def)


lemma advanced_pos [simp]: "advanced r (r\<lparr>pos := k\<rparr>)"
  by (simp add: advanced_def)

lemma next_int_advanced: "advanced r (snd (next_int r))"
  by (simp add: next_int_def)

lemma next_real_advanced: "advanced r (snd (next_real r))"
  by (simp add: next_real_def)

lemma randint_advanced: "randint lo hi r = Inr (v, r') \<Longrightarrow> advanced r r'"
  by (auto simp: randint_def next_int_def split: if_splits)

lemma uniform_advanced: "uniform lo hi r = (v, r') \<Longrightarrow> advanced r r'"
  by (auto simp: uniform_def next_real_def)













section \<open>Sugarscape: termination of a step\<close>



lemma never_stuck_mono:
  assumes "never_stuck n m f" "m' \<le> m"
  shows "never_stuck n m' f"
  unfolding never_stuck_def
proof (intro allI impI)
  fix p :: nat and S :: "loc set"
  assume a: "finite S \<and> card S < m' \<and> (\<exists>i j. i < n \<and> j < n \<and> (i, j) \<notin> S)"
  then have "finite S \<and> card S < m \<and> (\<exists>i j. i < n \<and> j < n \<and> (i, j) \<notin> S)"
    using assms(2) by auto
  then show "\<exists>k. (f (p + 2 * k) mod n, f (p + 2 * k + 1) mod n) \<notin> S"
    using assms(1) unfolding never_stuck_def by blast
qed

lemma never_stuck_attempt:
  assumes "never_stuck (env_n env) m (ints r)" "finite (occupied env)" "card (occupied env) < m"
    "in_grid (env_n env) c" "c \<notin> occupied env"
  shows "\<exists>k. attempt env r k \<notin> occupied env"
proof -
  obtain i j where c: "c = (i, j)" by (cases c)
  have "i < env_n env \<and> j < env_n env \<and> (i, j) \<notin> occupied env"
    using assms(4,5) by (simp add: c in_grid_def)
  then have "finite (occupied env) \<and> card (occupied env) < m \<and>
             (\<exists>i j. i < env_n env \<and> j < env_n env \<and> (i, j) \<notin> occupied env)"
    using assms(2,3) by blast
  then obtain k where "(ints r (pos r + 2 * k) mod env_n env,
                        ints r (pos r + 2 * k + 1) mod env_n env) \<notin> occupied env"
    using assms(1) unfolding never_stuck_def by blast
  then show ?thesis unfolding attempt_def by blast
qed

text \<open>What the condition on the source says of the program: it is never stuck on fewer than
  \<open>m\<close> cells exactly when the search of \<^verbatim>\<open>random_loc\<close> returns from every position, for
  every index of fewer than \<open>m\<close> cells that leaves a cell of the grid free.\<close>

lemma never_stuck_iff_search_returns:
  "never_stuck n m (ints r) =
     (\<forall>p (e :: sugarscape). env_n e = n \<and> finite (occupied e) \<and> card (occupied e) < m \<and>
            (\<exists>c. in_grid n c \<and> c \<notin> occupied e) \<longrightarrow>
            (\<exists>y. random_loc e (r\<lparr>pos := p\<rparr>) = Some y))"
proof
  assume ns: "never_stuck n m (ints r)"
  show "\<forall>p (e :: sugarscape). env_n e = n \<and> finite (occupied e) \<and> card (occupied e) < m \<and>
            (\<exists>c. in_grid n c \<and> c \<notin> occupied e) \<longrightarrow>
            (\<exists>y. random_loc e (r\<lparr>pos := p\<rparr>) = Some y)"
  proof (intro allI impI)
    fix p and e :: sugarscape
    assume a: "env_n e = n \<and> finite (occupied e) \<and> card (occupied e) < m \<and>
            (\<exists>c. in_grid n c \<and> c \<notin> occupied e)"
    then obtain c where c: "in_grid (env_n e) c" "c \<notin> occupied e" by blast
    have "never_stuck (env_n e) m (ints (r\<lparr>pos := p\<rparr>))" using ns a by simp
    then have "\<exists>k. attempt e (r\<lparr>pos := p\<rparr>) k \<notin> occupied e"
      using a c by (intro never_stuck_attempt[of e m _ c]) simp_all
    then show "\<exists>y. random_loc e (r\<lparr>pos := p\<rparr>) = Some y"
      using random_loc_returns_iff[of e] by blast
  qed
next
  assume rt: "\<forall>p (e :: sugarscape). env_n e = n \<and> finite (occupied e) \<and> card (occupied e) < m \<and>
            (\<exists>c. in_grid n c \<and> c \<notin> occupied e) \<longrightarrow>
            (\<exists>y. random_loc e (r\<lparr>pos := p\<rparr>) = Some y)"
  show "never_stuck n m (ints r)"
    unfolding never_stuck_def
  proof (intro allI impI)
    fix p :: nat and S :: "loc set"
    assume a: "finite S \<and> card S < m \<and> (\<exists>i j. i < n \<and> j < n \<and> (i, j) \<notin> S)"
    then obtain i j where ij: "i < n" "j < n" "(i, j) \<notin> S" by blast
    define e :: sugarscape where
      "e = \<lparr>env_n = n, env_params = default_params, agent_count_seq = [],
             capacity = make_capacity n, array = make_capacity n, agents = [],
             heap = (\<lambda>_. no_agent), next_ref = 0, occupied = S\<rparr>"
    have "in_grid n (i, j) \<and> (i, j) \<notin> occupied e" using ij by (simp add: in_grid_def e_def)
    then have "env_n e = n \<and> finite (occupied e) \<and> card (occupied e) < m \<and>
            (\<exists>c. in_grid n c \<and> c \<notin> occupied e)"
      using a by (auto simp: e_def)
    then obtain y where y: "random_loc e (r\<lparr>pos := p\<rparr>) = Some y" using rt by blast
    have "0 < env_n e" using ij(1) by (simp add: e_def)
    then obtain k where "attempt e (r\<lparr>pos := p\<rparr>) k \<notin> occupied e"
      using random_loc_some_attempt[OF y] by blast
    then have "(ints r (p + 2 * k) mod n, ints r (p + 2 * k + 1) mod n) \<notin> S"
      by (simp add: attempt_def e_def)
    then show "\<exists>k. (ints r (p + 2 * k) mod n, ints r (p + 2 * k + 1) mod n) \<notin> S" by blast
  qed
qed






section \<open>Sugarscape: termination of a step, and the random source\<close>

text \<open>Why the random source matters: in the model the source is any sequence of draws, also
  one that no seed of the generator gives. With every integer draw equal to 1 the constructor
  places three agents on the 2 by 2 grid, the first agent visited dies of age, and the search
  for the cell of its replacement draws the occupied cell (1, 1) forever.\<close>


lemma init_d: "sugarscape_init 2 params_d rng1 = Inr (env_d, rng1\<lparr>pos := 15\<rparr>)"
  by (simp add: sugarscape_init_def make_agents_def params_d_def default_params_def param_get_def
        make_locs_2_2 new_agent_def env_d_def eval_rng rng1_def)
     (simp add: numeral_2_eq_2)

lemma perm_d: "permutation (agents env_d) (rng1\<lparr>pos := 15\<rparr>) = ([0, 2, 1], rng1\<lparr>pos := 17\<rparr>)"
  by (simp add: env_d_def eval_rng rng1_def)

lemma lm_d: "look_and_move (env_d\<lparr>occupied := {(1, 0), (1, 1)}\<rparr>) (0, 0) 1 (rng1\<lparr>pos := 17\<rparr>) =
    Inr ((0, 1), rng1\<lparr>pos := 20\<rparr>)"
  by (simp add: look_and_move_def make_visible_locs_def upto_1_1 make_array_def eval_rng rng1_def
        np_mod_def env_d_def in_grid_def argmax_def Let_def)

lemma as_d: "\<exists>env2. agent_step 0 (env_d\<lparr>occupied := {(1, 0), (1, 1)}\<rparr>) (rng1\<lparr>pos := 17\<rparr>) =
    Inr (env2, rng1\<lparr>pos := 20\<rparr>) \<and> is_old (heap env2 0) \<and> agents env2 = [0, 1, 2] \<and>
    occupied env2 = {(1, 0), (1, 1)} \<and> env_n env2 = 2 \<and> env_params env2 = params_d"
proof -
  have h: "loc (heap (env_d\<lparr>occupied := {(1, 0), (1, 1)}\<rparr>) 0) = (0, 0)"
    "vision (heap (env_d\<lparr>occupied := {(1, 0), (1, 1)}\<rparr>) 0) = 1"
    by (simp_all add: env_d_def)
  show ?thesis
    unfolding agent_step_def h lm_d
    by (simp add: harvest_def in_grid_def Let_def is_old_def) (simp add: env_d_def)
qed

lemma stuck_d:
  assumes "occupied e = {(1, 0), (1, 1)}" "env_n e = 2"
  shows "random_loc e (rng1\<lparr>pos := 20\<rparr>) = None"
proof (rule random_loc_stuck)
  show "0 < env_n e" using assms(2) by simp
  show "\<forall>k. attempt e (rng1\<lparr>pos := 20\<rparr>) k \<in> occupied e"
    by (simp add: attempt_def assms rng1_def)
qed

lemma step_d: "sugarscape_step env_d (rng1\<lparr>pos := 15\<rparr>) = None"
proof -
  obtain env2 where a: "agent_step 0 (env_d\<lparr>occupied := {(1, 0), (1, 1)}\<rparr>) (rng1\<lparr>pos := 17\<rparr>) =
    Inr (env2, rng1\<lparr>pos := 20\<rparr>)" "is_old (heap env2 0)" "agents env2 = [0, 1, 2]"
    "occupied env2 = {(1, 0), (1, 1)}" "env_n env2 = 2" "env_params env2 = params_d"
    using as_d by blast
  have o: "env_d\<lparr>occupied := occupied env_d - {loc (heap env_d 0)}\<rparr> =
           env_d\<lparr>occupied := {(1, 0), (1, 1)}\<rparr>"
    "loc (heap env_d 0) \<in> occupied env_d"
    by (simp_all add: env_d_def)
  have rp: "param_get (replace params_d) False" by (simp add: params_d_def param_get_def)
  have rl: "random_loc (env2\<lparr>agents := remove1 0 (agents env2)\<rparr>) (rng1\<lparr>pos := 20\<rparr>) = None"
    by (rule stuck_d) (simp_all add: a)
  have aa: "add_agent (env2\<lparr>agents := remove1 0 (agents env2)\<rparr>) (rng1\<lparr>pos := 20\<rparr>) = None"
    by (simp add: add_agent_def rl)
  have v: "visit 0 (env_d, rng1\<lparr>pos := 17\<rparr>) = None"
    unfolding visit_def prod.case o using o(2) a(1,2,3,6) rp aa
    by (simp add: Let_def)
  show ?thesis
    by (simp add: sugarscape_step_def perm_d v)
qed

lemma stuck_source_example:
  "sugarscape_init 2 params_d rng1 = Inr (env_d, rng1\<lparr>pos := 15\<rparr>) \<and>
   sugarscape_step env_d (rng1\<lparr>pos := 15\<rparr>) = None \<and> \<not> never_stuck 2 3 (ints rng1)"
proof -
  have "\<not> never_stuck 2 3 (ints rng1)"
  proof
    assume "never_stuck 2 3 (ints rng1)"
    moreover have "finite {(Suc 0, Suc 0)} \<and> card {(Suc 0, Suc 0)} < (3::nat) \<and>
        (\<exists>i j. i < (2::nat) \<and> j < (2::nat) \<and> (i, j) \<notin> {(Suc 0, Suc 0)})"
      by (simp add: exI[of _ 0])
    ultimately obtain k where
      "(ints rng1 (0 + 2 * k) mod 2, ints rng1 (0 + 2 * k + 1) mod 2) \<notin> {(Suc 0, Suc 0)}"
      unfolding never_stuck_def by blast
    then show False by (simp add: rng1_def)
  qed
  then show ?thesis using init_d step_d by simp
qed






section \<open>Sugarscape: which cell \<open>look_and_move\<close> picks\<close>


lemma make_array_set: "set (fst (make_array d r)) = set (ring d)"
  by (simp add: make_array_def ring_def shuffle_set)

lemma make_array_dists:
  assumes "0 \<le> d"
  shows "map ring_dist (fst (make_array d r)) = replicate (length (fst (make_array d r))) d"
proof -
  have "\<forall>off \<in> set (fst (make_array d r)). ring_dist off = d"
    using assms unfolding make_array_set by (auto simp: ring_def ring_dist_def)
  then show ?thesis by (simp add: map_replicate_const[symmetric] cong: map_cong)
qed

lemma make_arrays_facts:
  assumes "sorted ds" "\<forall>d \<in> set ds. 0 \<le> d"
  shows "set (concat (fst (make_arrays ds r))) = (\<Union>d \<in> set ds. set (ring d)) \<and>
         sorted (map ring_dist (concat (fst (make_arrays ds r)))) \<and>
         (\<forall>off \<in> set (concat (fst (make_arrays ds r))). ring_dist off \<in> set ds) \<and>
         length (fst (make_arrays ds r)) = length ds"
  using assms
proof (induction ds arbitrary: r)
  case Nil
  then show ?case by simp
next
  case (Cons d ds)
  obtain a r1 where a: "make_array d r = (a, r1)" by (cases "make_array d r")
  obtain as r2 where as: "make_arrays ds r1 = (as, r2)" by (cases "make_arrays ds r1")
  have pre: "sorted ds" "\<forall>d \<in> set ds. 0 \<le> d" using Cons.prems by auto
  note IH0 = Cons.IH[OF pre, of r1, unfolded as fst_conv]
  have IH1: "set (concat as) = (\<Union>d \<in> set ds. set (ring d))"
    and IH2: "sorted (map ring_dist (concat as))"
    and IH3: "\<forall>off \<in> set (concat as). ring_dist off \<in> set ds"
    and IH4: "length as = length ds"
    using IH0 by blast+
  have d0: "0 \<le> d" using Cons.prems(2) by simp
  have sa: "set a = set (ring d)" using make_array_set[of d r] by (simp add: a)
  have da: "map ring_dist a = replicate (length a) d"
    using make_array_dists[OF d0, of r] by (simp add: a)
  have ad: "\<forall>off \<in> set a. ring_dist off = d"
    using d0 unfolding sa by (auto simp: ring_def ring_dist_def)
  have le: "\<forall>x \<in> set (concat as). d \<le> ring_dist x"
    using IH3 Cons.prems(1) by auto
  have f: "fst (make_arrays (d # ds) r) = a # as" by (simp add: a as)
  have c1: "set (concat (a # as)) = (\<Union>x \<in> set (d # ds). set (ring x))"
    using IH1 sa by simp
  have sda: "sorted (map ring_dist a)" unfolding da by (simp add: sorted_replicate)
  have c2: "sorted (map ring_dist (concat (a # as)))"
    using IH2 le ad sda by (simp add: sorted_append)
  have c3: "\<forall>off \<in> set (concat (a # as)). ring_dist off \<in> set (d # ds)"
    using IH3 ad by auto
  show ?case unfolding f using c1 c2 c3 IH4 by simp
qed

lemma make_visible_locs_facts:
  assumes "1 \<le> v"
  shows "\<exists>offs r'. make_visible_locs v r = Inr (offs, r') \<and> set offs = visible_offsets v \<and>
           sorted (map ring_dist offs)"
proof -
  obtain arrays r1 where m: "make_arrays [1..v] r = (arrays, r1)" by (cases "make_arrays [1..v] r")
  have pre: "sorted [1..v]" "\<forall>d \<in> set [1..v]. 0 \<le> d" by auto
  note f = make_arrays_facts[OF pre, of r, unfolded m fst_conv]
  have "arrays \<noteq> []" using f assms by auto
  moreover have "set (concat arrays) = visible_offsets v" using f by (simp add: visible_offsets_def)
  moreover have "sorted (map ring_dist (concat arrays))" using f by blast
  ultimately show ?thesis by (simp add: make_visible_locs_def m)
qed

text \<open>The first maximum of a filtered list, located in the list itself.\<close>

lemma filter_nth_index:
  "i < length (filter P xs) \<Longrightarrow>
     \<exists>k<length xs. filter P xs ! i = xs ! k \<and> filter P (take k xs) = take i (filter P xs)"
proof (induction xs arbitrary: i)
  case Nil
  then show ?case by simp
next
  case (Cons x xs)
  show ?case
  proof (cases "P x")
    case True
    show ?thesis
    proof (cases i)
      case 0
      then show ?thesis using True by (intro exI[of _ 0]) simp
    next
      case (Suc i')
      then have "i' < length (filter P xs)" using Cons.prems True by simp
      then obtain k where "k < length xs" "filter P xs ! i' = xs ! k"
        "filter P (take k xs) = take i' (filter P xs)"
        using Cons.IH by blast
      then show ?thesis using True Suc by (intro exI[of _ "Suc k"]) simp
    qed
  next
    case False
    then have "i < length (filter P xs)" using Cons.prems by simp
    then obtain k where "k < length xs" "filter P xs ! i = xs ! k"
      "filter P (take k xs) = take i (filter P xs)"
      using Cons.IH by blast
    then show ?thesis using False by (intro exI[of _ "Suc k"]) simp
  qed
qed

lemma filter_first_max:
  fixes f :: "'a \<Rightarrow> int"
  assumes "filter P xs \<noteq> []"
  shows "\<exists>k<length xs. xs ! k = filter P xs ! argmax (map f (filter P xs)) \<and> P (xs ! k) \<and>
           (\<forall>j<k. P (xs ! j) \<longrightarrow> f (xs ! j) < f (xs ! k)) \<and>
           (\<forall>x \<in> set xs. P x \<longrightarrow> f x \<le> f (xs ! k))"
proof -
  define cs where "cs = filter P xs"
  define i where "i = argmax (map f cs)"
  have a: "map f cs \<noteq> []" using assms by (simp add: cs_def)
  note s = argmax_spec[OF a, folded i_def]
  have sp1: "i < length cs" using s by simp
  have s2: "\<forall>j<length (map f cs). map f cs ! j \<le> map f cs ! i" using s by blast
  have s3: "\<forall>j<i. map f cs ! j < map f cs ! i" using s by blast
  have sp2: "f (cs ! j) \<le> f (cs ! i)" if "j < length cs" for j
  proof -
    have "j < length (map f cs)" using that by simp
    with s2 have "map f cs ! j \<le> map f cs ! i" by blast
    then show ?thesis by (simp only: nth_map[OF that] nth_map[OF sp1])
  qed
  have sp3: "f (cs ! j) < f (cs ! i)" if "j < i" for j
  proof -
    have jl: "j < length cs" using that sp1 by simp
    from s3 that have "map f cs ! j < map f cs ! i" by blast
    then show ?thesis by (simp only: nth_map[OF jl] nth_map[OF sp1])
  qed
  obtain k where k1: "k < length xs" and k2: "cs ! i = xs ! k"
    and k3: "filter P (take k xs) = take i cs"
    using filter_nth_index[of i P xs] sp1 unfolding cs_def by blast
  have "cs ! i \<in> set cs" using sp1 by (rule nth_mem)
  then have pk: "P (xs ! k)" unfolding k2 by (simp add: cs_def)
  have before: "f (xs ! j) < f (xs ! k)" if "j < k" "P (xs ! j)" for j
  proof -
    have "j < length (take k xs)" using that(1) k1 by simp
    then have "take k xs ! j \<in> set (take k xs)" by (rule nth_mem)
    then have "xs ! j \<in> set (take k xs)" using that(1) by simp
    then have "xs ! j \<in> set (filter P (take k xs))" using that(2) by simp
    then have "xs ! j \<in> set (take i cs)" unfolding k3 .
    then obtain j' where j': "j' < length (take i cs)" "take i cs ! j' = xs ! j"
      unfolding in_set_conv_nth by blast
    have "j' < i" using j'(1) by simp
    then have "f (cs ! j') < f (cs ! i)" by (rule sp3)
    moreover have "cs ! j' = xs ! j" using j'(2) \<open>j' < i\<close> by simp
    ultimately show ?thesis unfolding k2 by simp
  qed
  have all: "f x \<le> f (xs ! k)" if "x \<in> set xs" "P x" for x
  proof -
    have "x \<in> set cs" using that by (simp add: cs_def)
    then obtain j where j: "j < length cs" "cs ! j = x" unfolding in_set_conv_nth by blast
    have "f (cs ! j) \<le> f (cs ! i)" using j(1) by (rule sp2)
    then show ?thesis unfolding k2 j(2) .
  qed
  have "xs ! k = filter P xs ! argmax (map f (filter P xs))"
    using k2 by (simp add: i_def cs_def)
  then show ?thesis using k1 pk before all by blast
qed


lemma translate_in_grid: "0 < env_n env \<Longrightarrow> in_grid (env_n env) (translate env c off)"
  by (cases off) (simp add: translate_def in_grid_def np_mod_def nat_less_iff)

lemma make_visible_locs_none:
  "v < 1 \<Longrightarrow> make_visible_locs v r = Inl ValueError"
  by (simp add: make_visible_locs_def)

lemma look_and_move_choice:
  assumes "0 < env_n env" "1 \<le> v"
  shows "\<exists>offs r'. make_visible_locs v r = Inr (offs, r') \<and> set offs = visible_offsets v \<and>
           sorted (map ring_dist offs) \<and>
           ((\<forall>off \<in> set offs. translate env c off \<in> occupied env) \<longrightarrow>
              look_and_move env c v r = Inr (c, r')) \<and>
           (\<not> (\<forall>off \<in> set offs. translate env c off \<in> occupied env) \<longrightarrow>
              (\<exists>k<length offs.
                    look_and_move env c v r = Inr (translate env c (offs ! k), r') \<and>
                    translate env c (offs ! k) \<notin> occupied env \<and>
                    (\<forall>j<k. translate env c (offs ! j) \<notin> occupied env \<longrightarrow>
                       sint (array env (translate env c (offs ! j))) <
                       sint (array env (translate env c (offs ! k)))) \<and>
                    (\<forall>off \<in> set offs. translate env c off \<notin> occupied env \<longrightarrow>
                       sint (array env (translate env c off)) \<le>
                       sint (array env (translate env c (offs ! k))))))"
proof -
  obtain offs r' where mv: "make_visible_locs v r = Inr (offs, r')"
    and so: "set offs = visible_offsets v" and sd: "sorted (map ring_dist offs)"
    using make_visible_locs_facts[OF assms(2)] by blast
  define P where "P = (\<lambda>off. translate env c off \<notin> occupied env)"
  define f where "f = (\<lambda>off. sint (array env (translate env c off)))"
  define cand where "cand = filter P offs"
  have tr: "(\<lambda>(di, dj). (np_mod (di + int (fst c)) (env_n env),
                          np_mod (dj + int (snd c)) (env_n env))) = translate env c"
    by (simp add: translate_def)
  have el: "filter (\<lambda>l. l \<notin> occupied env) (map (translate env c) offs) = map (translate env c) cand"
    by (simp add: cand_def P_def filter_map comp_def)
  have ig: "list_all (in_grid (env_n env)) (map (translate env c) cand)"
    using translate_in_grid[OF assms(1)] by (simp add: list_all_iff)
  have mf: "map (\<lambda>l. sint (array env l)) (map (translate env c) cand) = map f cand"
    by (simp add: f_def comp_def)
  have lm: "look_and_move env c v r =
      (if cand = [] then Inr (c, r')
       else Inr (map (translate env c) cand ! argmax (map f cand), r'))"
    unfolding look_and_move_def mv sum.case prod.case Let_def tr el mf using ig by simp
  show ?thesis
  proof (cases "cand = []")
    case True
    then have a: "\<forall>off \<in> set offs. translate env c off \<in> occupied env"
      by (simp add: cand_def P_def filter_empty_conv)
    have "look_and_move env c v r = Inr (c, r')" using lm True by simp
    then show ?thesis using mv so sd a by blast
  next
    case False
    then have ne: "\<not> (\<forall>off \<in> set offs. translate env c off \<in> occupied env)"
      by (simp add: cand_def P_def filter_empty_conv)
    define i where "i = argmax (map f cand)"
    have il: "i < length cand"
      using argmax_spec[of "map f cand"] False by (simp add: i_def)
    from filter_first_max[of P offs f] False obtain k where
      k: "k < length offs" "offs ! k = cand ! i" "P (offs ! k)"
         "\<forall>j<k. P (offs ! j) \<longrightarrow> f (offs ! j) < f (offs ! k)"
         "\<forall>x \<in> set offs. P x \<longrightarrow> f x \<le> f (offs ! k)"
      unfolding cand_def[symmetric] i_def[symmetric] by blast
    have res: "look_and_move env c v r = Inr (translate env c (offs ! k), r')"
      using lm False il by (simp add: i_def[symmetric] k(2))
    have "\<exists>k<length offs.
                    look_and_move env c v r = Inr (translate env c (offs ! k), r') \<and>
                    translate env c (offs ! k) \<notin> occupied env \<and>
                    (\<forall>j<k. translate env c (offs ! j) \<notin> occupied env \<longrightarrow>
                       sint (array env (translate env c (offs ! j))) <
                       sint (array env (translate env c (offs ! k)))) \<and>
                    (\<forall>off \<in> set offs. translate env c off \<notin> occupied env \<longrightarrow>
                       sint (array env (translate env c off)) \<le>
                       sint (array env (translate env c (offs ! k))))"
      using res k unfolding P_def f_def by blast
    then show ?thesis using mv so sd ne by blast
  qed
qed
section \<open>Sugarscape: what \<open>look_and_move\<close> chooses\<close>

lemma lm_a: "look_and_move (env_a\<lparr>occupied := {(0, 1)}\<rparr>) (1, 0) 1 (rng0\<lparr>pos := 12\<rparr>) =
    Inr ((1, 1), rng0\<lparr>pos := 15\<rparr>)"
  by (simp add: look_and_move_def make_visible_locs_def upto_1_1 make_array_def eval_rng rng0_def
        np_mod_def env_a_def in_grid_def argmax_def Let_def make_capacity_2)

text \<open>
  \<^bold>\<open>C4.\<close> On a grid with at least one cell, \<^verbatim>\<open>look_and_move(center, v)\<close> for a vision
  of at least 1 enumerates the visible offsets: exactly the four axis offsets at each distance
  1..v, in an order of ascending distance. When every visible cell (an offset translated by
  the centre, with wrap) is in the occupancy index, it returns the centre. Otherwise it
  returns the unoccupied visible cell at some position \<open>k\<close> of the enumeration that holds
  the maximum level among the unoccupied visible cells, and every unoccupied visible cell
  that holds the same level comes at position \<open>k\<close> or later, so at a distance that is not
  smaller. With a vision below 1 there is no offset and the call raises.
\<close>

theorem look_and_move_first_maximum:
  assumes "0 < env_n env"
  shows "(v < 1 \<longrightarrow> look_and_move env c v r = Inl ValueError) \<and>
         (1 \<le> v \<longrightarrow>
           (\<exists>offs r'. make_visible_locs v r = Inr (offs, r') \<and> set offs = visible_offsets v \<and>
              sorted (map ring_dist offs) \<and>
              ((\<forall>off \<in> visible_offsets v. translate env c off \<in> occupied env) \<longrightarrow>
                 look_and_move env c v r = Inr (c, r')) \<and>
              (\<not> (\<forall>off \<in> visible_offsets v. translate env c off \<in> occupied env) \<longrightarrow>
                 (\<exists>k<length offs.
                    look_and_move env c v r = Inr (translate env c (offs ! k), r') \<and>
                    translate env c (offs ! k) \<notin> occupied env \<and>
                    (\<forall>off \<in> visible_offsets v. translate env c off \<notin> occupied env \<longrightarrow>
                       sint (array env (translate env c off)) \<le>
                       sint (array env (translate env c (offs ! k)))) \<and>
                    (\<forall>j<length offs.
                       translate env c (offs ! j) \<notin> occupied env \<and>
                       sint (array env (translate env c (offs ! j))) =
                       sint (array env (translate env c (offs ! k))) \<longrightarrow>
                       k \<le> j \<and> ring_dist (offs ! k) \<le> ring_dist (offs ! j))))))"
proof (intro conjI impI)
  assume "v < 1"
  then show "look_and_move env c v r = Inl ValueError"
    by (simp add: look_and_move_def make_visible_locs_none)
next
  assume v: "1 \<le> v"
  from look_and_move_choice[OF assms v, of r c] obtain offs r' where
    mv: "make_visible_locs v r = Inr (offs, r')" and so: "set offs = visible_offsets v"
    and sd: "sorted (map ring_dist offs)"
    and full: "(\<forall>off \<in> set offs. translate env c off \<in> occupied env) \<longrightarrow>
                 look_and_move env c v r = Inr (c, r')"
    and some: "\<not> (\<forall>off \<in> set offs. translate env c off \<in> occupied env) \<longrightarrow>
      (\<exists>k<length offs.
          look_and_move env c v r = Inr (translate env c (offs ! k), r') \<and>
          translate env c (offs ! k) \<notin> occupied env \<and>
          (\<forall>j<k. translate env c (offs ! j) \<notin> occupied env \<longrightarrow>
             sint (array env (translate env c (offs ! j))) <
             sint (array env (translate env c (offs ! k)))) \<and>
          (\<forall>off \<in> set offs. translate env c off \<notin> occupied env \<longrightarrow>
             sint (array env (translate env c off)) \<le>
             sint (array env (translate env c (offs ! k)))))"
    by blast
  have part: "\<exists>k<length offs.
        look_and_move env c v r = Inr (translate env c (offs ! k), r') \<and>
        translate env c (offs ! k) \<notin> occupied env \<and>
        (\<forall>off \<in> visible_offsets v. translate env c off \<notin> occupied env \<longrightarrow>
           sint (array env (translate env c off)) \<le>
           sint (array env (translate env c (offs ! k)))) \<and>
        (\<forall>j<length offs.
           translate env c (offs ! j) \<notin> occupied env \<and>
           sint (array env (translate env c (offs ! j))) =
           sint (array env (translate env c (offs ! k))) \<longrightarrow>
           k \<le> j \<and> ring_dist (offs ! k) \<le> ring_dist (offs ! j))"
    if ne: "\<not> (\<forall>off \<in> visible_offsets v. translate env c off \<in> occupied env)"
  proof -
    from some ne so obtain k where k: "k < length offs"
      "look_and_move env c v r = Inr (translate env c (offs ! k), r')"
      "translate env c (offs ! k) \<notin> occupied env"
      "\<forall>j<k. translate env c (offs ! j) \<notin> occupied env \<longrightarrow>
             sint (array env (translate env c (offs ! j))) <
             sint (array env (translate env c (offs ! k)))"
      "\<forall>off \<in> set offs. translate env c off \<notin> occupied env \<longrightarrow>
             sint (array env (translate env c off)) \<le>
             sint (array env (translate env c (offs ! k)))"
      by auto
    have tie: "k \<le> j \<and> ring_dist (offs ! k) \<le> ring_dist (offs ! j)"
      if j: "j < length offs" and t: "translate env c (offs ! j) \<notin> occupied env"
        "sint (array env (translate env c (offs ! j))) =
         sint (array env (translate env c (offs ! k)))" for j
    proof -
      have kj: "k \<le> j"
      proof (rule ccontr)
        assume "\<not> k \<le> j"
        then have "j < k" by simp
        then have "sint (array env (translate env c (offs ! j))) <
                   sint (array env (translate env c (offs ! k)))"
          using k(4) t(1) by blast
        then show False using t(2) by simp
      qed
      have "map ring_dist offs ! k \<le> map ring_dist offs ! j"
        using sd kj j by (intro sorted_nth_mono) simp_all
      then show ?thesis using kj j k(1) by simp
    qed
    show ?thesis
      using k(1,2,3) k(5)[unfolded so] tie by blast
  qed
  show "\<exists>offs r'. make_visible_locs v r = Inr (offs, r') \<and> set offs = visible_offsets v \<and>
              sorted (map ring_dist offs) \<and>
              ((\<forall>off \<in> visible_offsets v. translate env c off \<in> occupied env) \<longrightarrow>
                 look_and_move env c v r = Inr (c, r')) \<and>
              (\<not> (\<forall>off \<in> visible_offsets v. translate env c off \<in> occupied env) \<longrightarrow>
                 (\<exists>k<length offs.
                    look_and_move env c v r = Inr (translate env c (offs ! k), r') \<and>
                    translate env c (offs ! k) \<notin> occupied env \<and>
                    (\<forall>off \<in> visible_offsets v. translate env c off \<notin> occupied env \<longrightarrow>
                       sint (array env (translate env c off)) \<le>
                       sint (array env (translate env c (offs ! k)))) \<and>
                    (\<forall>j<length offs.
                       translate env c (offs ! j) \<notin> occupied env \<and>
                       sint (array env (translate env c (offs ! j))) =
                       sint (array env (translate env c (offs ! k))) \<longrightarrow>
                       k \<le> j \<and> ring_dist (offs ! k) \<le> ring_dist (offs ! j))))"
    using mv so sd full[unfolded so] part by blast
qed

text \<open>Two agents on the 2 by 2 grid; the agent at (1, 0), with the other at (0, 1), sees
  the free cells (0, 0), of level 0, and (1, 1), of level 1, and moves to (1, 1).\<close>

theorem look_and_move_first_maximum_witness:
  "0 < env_n (env_a\<lparr>occupied := {(0, 1)}\<rparr>) \<and> (1, 0) \<in> visible_offsets 1 \<and>
   translate (env_a\<lparr>occupied := {(0, 1)}\<rparr>) (1, 0) (1, 0) = (0, 0) \<and>
   (0, 0) \<notin> occupied (env_a\<lparr>occupied := {(0, 1)}\<rparr>) \<and>
   look_and_move (env_a\<lparr>occupied := {(0, 1)}\<rparr>) (1, 0) 1 (rng0\<lparr>pos := 12\<rparr>) =
     Inr ((1, 1), rng0\<lparr>pos := 15\<rparr>) \<and>
   (1, 1) \<notin> occupied (env_a\<lparr>occupied := {(0, 1)}\<rparr>) \<and>
   sint (array (env_a\<lparr>occupied := {(0, 1)}\<rparr>) (0, 0)) \<le>
   sint (array (env_a\<lparr>occupied := {(0, 1)}\<rparr>) (1, 1)) \<and>
   sint (array (env_a\<lparr>occupied := {(0, 1)}\<rparr>) (1, 1)) = 1"
proof -
  define e where "e = env_a\<lparr>occupied := {(0, 1)}\<rparr>"
  have n: "0 < env_n e" by (simp add: e_def env_a_def)
  have vo: "(1, 0) \<in> visible_offsets 1" by (simp add: visible_offsets_def ring_def)
  have tr: "translate e (1, 0) (1, 0) = (0, 0)"
    by (simp add: translate_def np_mod_def e_def env_a_def)
  have fr: "(0, 0) \<notin> occupied e" by (simp add: e_def)
  have ne: "\<not> (\<forall>off \<in> visible_offsets 1. translate e (1, 0) off \<in> occupied e)"
    using vo tr fr by force
  from look_and_move_first_maximum[OF n, of 1 "(1, 0)" "rng0\<lparr>pos := 12\<rparr>"] ne
  obtain offs r' k where k:
    "look_and_move e (1, 0) 1 (rng0\<lparr>pos := 12\<rparr>) = Inr (translate e (1, 0) (offs ! k), r')"
    "translate e (1, 0) (offs ! k) \<notin> occupied e"
    "\<forall>off \<in> visible_offsets 1. translate e (1, 0) off \<notin> occupied e \<longrightarrow>
        sint (array e (translate e (1, 0) off)) \<le> sint (array e (translate e (1, 0) (offs ! k)))"
    by auto
  have c: "translate e (1, 0) (offs ! k) = (1, 1)" using k(1) lm_a by (simp add: e_def)
  have "sint (array e (translate e (1, 0) (1, 0))) \<le> sint (array e (translate e (1, 0) (offs ! k)))"
    using k(3) vo fr tr by force
  then have le: "sint (array e (0, 0)) \<le> sint (array e (1, 1))" unfolding c tr .
  have v: "sint (array e (1, 1)) = 1" by (simp add: e_def env_a_def make_capacity_2)
  show ?thesis
    using n vo tr fr lm_a k(2)[unfolded c] le v unfolding e_def by blast
qed
section \<open>Runs depend on the random source through its draws only\<close>

text \<open>Every function that draws gives, on two sources with the same sequence of draws, the
  same value, and leaves two sources that again have the same sequence of draws.\<close>

lemma same_draws_refl: "same_draws r r"
  by (simp add: same_draws_def)





































section \<open>Determinism of a run\<close>



end
